theory Spec2Isabelle
  imports Main "HOL-Library.Word"
begin

unbundle bit_operations_syntax

section \<open>The region layer of mimalloc (src/memory.c)\<close>

text \<open>
  A shallow embedding of \<^verbatim>\<open>src/memory.c\<close>: the thread-shared regions between the raw OS
  memory and the segment allocation. The embedding is of the 64-bit build
  (\<^verbatim>\<open>MI_INTPTR_SIZE == 8\<close>): \<^verbatim>\<open>size_t\<close>, \<^verbatim>\<open>uintptr_t\<close> and pointers are 64-bit words,
  \<^verbatim>\<open>NULL\<close> is the word 0, and unsigned arithmetic wraps around as in C.
\<close>

type_synonym uintptr = "64 word"
type_synonym size_t = "64 word"

subsection \<open>Constants\<close>

text \<open>
  Modelled from the spec: \<^verbatim>\<open>MI_INTPTR_SIZE\<close> is declared in \<^verbatim>\<open>mimalloc-types.h\<close>, which is
  not among the sources. The spec gives the bitmap width as 64 on 64-bit targets, and
  the width is \<^verbatim>\<open>MI_INTPTR_SIZE * 8\<close> in \<^verbatim>\<open>memory.c\<close>.
\<close>

definition MI_INTPTR_SIZE :: size_t where
  "MI_INTPTR_SIZE = 8"

text \<open>
  Modelled from the spec: \<^verbatim>\<open>MI_SEGMENT_SIZE\<close> is declared in \<^verbatim>\<open>mimalloc-types.h\<close>, which is
  not among the sources. The spec gives the block size as 4 MiB, and the comments of
  \<^verbatim>\<open>memory.c\<close> say the same ("one bit per MI_SEGMENT_SIZE (4MiB) block").
\<close>

definition MI_SEGMENT_SIZE :: size_t where
  "MI_SEGMENT_SIZE = 4 * 1024 * 1024"

definition MI_HEAP_REGION_MAX_SIZE :: size_t where
  "MI_HEAP_REGION_MAX_SIZE = 256 * push_bit 30 1"

definition MI_SEGMENT_ALIGN :: size_t where
  "MI_SEGMENT_ALIGN = MI_SEGMENT_SIZE"

definition MI_REGION_MAP_BITS :: size_t where
  "MI_REGION_MAP_BITS = MI_INTPTR_SIZE * 8"

definition MI_REGION_SIZE :: size_t where
  "MI_REGION_SIZE = MI_SEGMENT_SIZE * MI_REGION_MAP_BITS"

definition MI_REGION_MAX_ALLOC_SIZE :: size_t where
  "MI_REGION_MAX_ALLOC_SIZE = (MI_REGION_MAP_BITS div 4) * MI_SEGMENT_SIZE"

definition MI_REGION_MAX :: size_t where
  "MI_REGION_MAX = MI_HEAP_REGION_MAX_SIZE div MI_REGION_SIZE"

definition MI_REGION_MAP_FULL :: uintptr where
  "MI_REGION_MAP_FULL = - 1"

definition SIZE_MAX :: size_t where
  "SIZE_MAX = - 1"

subsection \<open>C's shifts\<close>

text \<open>
  In C a shift of a 64-bit operand by 64 or more is undefined behaviour, where HOL's
  \<^const>\<open>push_bit\<close> returns 0. The model keeps the difference: a shift is a partial
  operation, and \<^const>\<open>None\<close> stands for undefined behaviour throughout.
\<close>

definition shiftl_c :: "uintptr \<Rightarrow> size_t \<Rightarrow> uintptr option" where
  "shiftl_c x n = (if n < 64 then Some (push_bit (unat n) x) else None)"

subsection \<open>Utility functions\<close>

text \<open>\<^verbatim>\<open>mi_region_block_count\<close>: blocks (of 4MiB) needed for the given size.\<close>

definition mi_region_block_count :: "size_t \<Rightarrow> size_t" where
  "mi_region_block_count sz = (sz + MI_SEGMENT_SIZE - 1) div MI_SEGMENT_SIZE"

text \<open>\<^verbatim>\<open>mi_region_block_mask\<close>: the bit mask for a number of blocks at a bit index,
  \<^verbatim>\<open>((((uintptr_t)1 << blocks) - 1) << bitidx)\<close>.\<close>

definition mi_region_block_mask :: "size_t \<Rightarrow> size_t \<Rightarrow> uintptr option" where
  "mi_region_block_mask blocks bitidx =
     (case shiftl_c 1 blocks of
        None \<Rightarrow> None
      | Some one_shifted \<Rightarrow> shiftl_c (one_shifted - 1) bitidx)"


text \<open>
  Modelled from the spec: \<^verbatim>\<open>_mi_align_up\<close> is defined in \<^verbatim>\<open>mimalloc-internal.h\<close>, which
  is not among the sources. The spec says "round S up to an OS page multiple": the result
  is the least multiple of the alignment that is at least the size (modulo \<open>2 ^ 64\<close>).
  The division by a zero alignment is undefined behaviour in C.
\<close>

definition mi_align_up :: "size_t \<Rightarrow> size_t \<Rightarrow> size_t option" where
  "mi_align_up sz alignment =
     (if alignment = 0 then None
      else let x = (sz div alignment) * alignment
           in Some (if x < sz then x + alignment else x))"

subsection \<open>The operating system and the other threads\<close>

text \<open>
  What the layer does to the outside is recorded in a trace: the calls of the OS
  primitives with their results, and every successful compare-and-swap on a region's
  map. The trace is what the claims about "no OS primitive is called" and "decommit
  before the bits are cleared" are stated on.
\<close>

datatype event =
    Os_alloc_aligned size_t size_t bool uintptr
  | Os_free uintptr size_t
  | Os_commit uintptr size_t bool
  | Os_decommit uintptr size_t
  | Os_reset uintptr size_t
  | Map_write nat uintptr

text \<open>
  The OS interface is declared in \<^verbatim>\<open>memory.c\<close> and implemented elsewhere, so it is a
  parameter: the page sizes, the option \<^verbatim>\<open>mi_option_eager_region_commit\<close>, and the results
  of \<^verbatim>\<open>_mi_os_alloc_aligned\<close> and \<^verbatim>\<open>_mi_os_commit\<close> as functions of the history of calls
  and of the arguments. A result 0 of \<open>os_alloc_result\<close> is \<^verbatim>\<open>NULL\<close>: out of memory.
\<close>

record os =
  os_page_size :: size_t
  os_large_page_size :: size_t
  eager_region_commit :: bool
  os_alloc_result :: "event list \<Rightarrow> size_t \<Rightarrow> size_t \<Rightarrow> bool \<Rightarrow> uintptr"
  os_commit_result :: "event list \<Rightarrow> uintptr \<Rightarrow> size_t \<Rightarrow> bool"

text \<open>\<^verbatim>\<open>mem_region_t\<close>; the field \<^verbatim>\<open>map\<close> is \<open>map_word\<close> here.\<close>

record mem_region =
  map_word :: uintptr
  start :: uintptr

text \<open>
  The globals \<^verbatim>\<open>regions\<close>, \<^verbatim>\<open>regions_count\<close> and \<^verbatim>\<open>region_next_idx\<close>, the trace, and
  what the other threads do. The regions are shared, and the code reads a word and later
  compares-and-swaps it; another thread can write the word in between. \<open>others_map\<close>
  lists, for the successive compare-and-swaps this thread makes on a map, the value the
  other threads have left in that map since this thread read it; \<open>others_start\<close> does the
  same for the compare-and-swaps on \<^verbatim>\<open>start\<close>. An empty list is a quiet environment:
  no other thread interferes any more.

  A thread that publishes a \<^verbatim>\<open>start\<close> (line 130) increments \<^verbatim>\<open>regions_count\<close> afterwards, in
  a second atomic operation (line 132), so the counter lags behind the published starts.
  \<open>others_pending\<close> is the number of other threads that stand between the two, and
  \<open>others_count\<close> lists, for the successive accesses of this thread to \<^verbatim>\<open>regions_count\<close>,
  how many of them complete their increment before the access.
\<close>

record state =
  regions :: "nat \<Rightarrow> mem_region"
  regions_count :: size_t
  region_next_idx :: uintptr
  trace :: "event list"
  others_map :: "uintptr list"
  others_start :: "uintptr list"
  others_pending :: nat
  others_count :: "nat list"

definition mi_os_alloc_aligned :: "os \<Rightarrow> size_t \<Rightarrow> size_t \<Rightarrow> bool \<Rightarrow> state \<Rightarrow> uintptr \<times> state" where
  "mi_os_alloc_aligned e sz alignment commit s =
     (let r = os_alloc_result e (trace s) sz alignment commit
      in (r, s\<lparr>trace := trace s @ [Os_alloc_aligned sz alignment commit r]\<rparr>))"

definition mi_os_free :: "uintptr \<Rightarrow> size_t \<Rightarrow> state \<Rightarrow> state" where
  "mi_os_free p sz s = s\<lparr>trace := trace s @ [Os_free p sz]\<rparr>"

definition mi_os_commit :: "os \<Rightarrow> uintptr \<Rightarrow> size_t \<Rightarrow> state \<Rightarrow> bool \<times> state" where
  "mi_os_commit e p sz s =
     (let ok = os_commit_result e (trace s) p sz
      in (ok, s\<lparr>trace := trace s @ [Os_commit p sz ok]\<rparr>))"

definition mi_os_decommit :: "uintptr \<Rightarrow> size_t \<Rightarrow> state \<Rightarrow> state" where
  "mi_os_decommit p sz s = s\<lparr>trace := trace s @ [Os_decommit p sz]\<rparr>"

definition mi_os_reset :: "uintptr \<Rightarrow> size_t \<Rightarrow> state \<Rightarrow> state" where
  "mi_os_reset p sz s = s\<lparr>trace := trace s @ [Os_reset p sz]\<rparr>"

text \<open>\<^verbatim>\<open>mi_good_commit_size\<close>: a rounded commit size that does not fragment large OS pages.\<close>

definition mi_good_commit_size :: "os \<Rightarrow> size_t \<Rightarrow> size_t option" where
  "mi_good_commit_size e sz =
     (if sz > SIZE_MAX - os_large_page_size e then Some sz
      else mi_align_up sz (os_large_page_size e))"

subsection \<open>Atomic operations\<close>

text \<open>
  Modelled from the spec: the atomic operations are declared in \<^verbatim>\<open>mimalloc-atomic.h\<close>,
  which is not among the sources. The spec calls them atomic compare-and-swaps: the word
  is written, and the call returns true, exactly when the word holds the compared value.
  This one is \<^verbatim>\<open>mi_atomic_compare_exchange(&region->map, exchange, compare)\<close> on the region
  at \<open>idx\<close>. Before it compares, the other threads' write (if the list holds one) lands
  in the map.
\<close>

definition others_write_map :: "nat \<Rightarrow> state \<Rightarrow> state" where
  "others_write_map idx s =
     (case others_map s of
        [] \<Rightarrow> s
      | v # vs \<Rightarrow> s\<lparr>regions := (regions s)(idx := (regions s idx)\<lparr>map_word := v\<rparr>),
                     others_map := vs\<rparr>)"

definition mi_atomic_compare_exchange :: "nat \<Rightarrow> uintptr \<Rightarrow> uintptr \<Rightarrow> state \<Rightarrow> bool \<times> state" where
  "mi_atomic_compare_exchange idx exchange compare s =
     (let s1 = others_write_map idx s
      in if map_word (regions s1 idx) = compare
         then (True, s1\<lparr>regions := (regions s1)(idx := (regions s1 idx)\<lparr>map_word := exchange\<rparr>),
                         trace := trace s1 @ [Map_write idx exchange]\<rparr>)
         else (False, s1))"

text \<open>
  Modelled from the spec: \<^verbatim>\<open>mi_atomic_compare_exchange_ptr\<close> is declared in
  \<^verbatim>\<open>mimalloc-atomic.h\<close> as well, and is the compare-and-swap of a pointer, here
  \<^verbatim>\<open>mi_atomic_compare_exchange_ptr(&region->start, exchange, compare)\<close>. Another thread
  that runs the same code publishes its own reservation \<open>q\<close> only into a \<^verbatim>\<open>start\<close> that is
  still \<^verbatim>\<open>NULL\<close>. Its increment of \<^verbatim>\<open>regions_count\<close> is a later step of its own: the
  publication leaves it pending.
\<close>

definition others_write_start :: "nat \<Rightarrow> state \<Rightarrow> state" where
  "others_write_start idx s =
     (case others_start s of
        [] \<Rightarrow> s
      | q # qs \<Rightarrow>
          if q \<noteq> 0 \<and> start (regions s idx) = 0
          then s\<lparr>regions := (regions s)(idx := (regions s idx)\<lparr>start := q\<rparr>),
                 others_pending := others_pending s + 1,
                 others_start := qs\<rparr>
          else s\<lparr>others_start := qs\<rparr>)"

definition mi_atomic_compare_exchange_ptr :: "nat \<Rightarrow> uintptr \<Rightarrow> uintptr \<Rightarrow> state \<Rightarrow> bool \<times> state" where
  "mi_atomic_compare_exchange_ptr idx exchange compare s =
     (let s1 = others_write_start idx s
      in if start (regions s1 idx) = compare
         then (True, s1\<lparr>regions := (regions s1)(idx := (regions s1 idx)\<lparr>start := exchange\<rparr>)\<rparr>)
         else (False, s1))"

text \<open>
  Modelled from the spec: \<^verbatim>\<open>mi_atomic_read\<close> and \<^verbatim>\<open>mi_atomic_increment\<close> are declared in
  \<^verbatim>\<open>mimalloc-atomic.h\<close> as well; here they are \<^verbatim>\<open>mi_atomic_read(&regions_count)\<close> and
  \<^verbatim>\<open>mi_atomic_increment(&regions_count)\<close>. Before either, some of the other threads that
  have published a \<^verbatim>\<open>start\<close> complete their own increment.
\<close>

definition others_increment :: "state \<Rightarrow> state" where
  "others_increment s =
     (case others_count s of
        [] \<Rightarrow> s
      | k # ks \<Rightarrow>
          let n = min k (others_pending s)
          in s\<lparr>regions_count := regions_count s + of_nat n,
                others_pending := others_pending s - n,
                others_count := ks\<rparr>)"

definition mi_atomic_read_count :: "state \<Rightarrow> size_t \<times> state" where
  "mi_atomic_read_count s = (let s1 = others_increment s in (regions_count s1, s1))"

definition mi_atomic_increment :: "state \<Rightarrow> state" where
  "mi_atomic_increment s =
     (let s1 = others_increment s in s1\<lparr>regions_count := regions_count s1 + 1\<rparr>)"

subsection \<open>The search for a free range of bits\<close>

text \<open>
  The loops of \<^verbatim>\<open>mi_region_alloc_blocks\<close> over the local copy \<^verbatim>\<open>m\<close> of the map.
  \<open>skip_ones\<close> is \<^verbatim>\<open>while ((m&1) == 1) { bitidx++; m>>=1; }\<close>.
\<close>

function skip_ones :: "uintptr \<Rightarrow> size_t \<Rightarrow> uintptr \<times> size_t" where
  "skip_ones m bitidx =
     (if m AND 1 = 1 then skip_ones (drop_bit 1 m) (bitidx + 1) else (m, bitidx))"
  by pat_completeness auto

lemma drop_bit_1_less: "(m::uintptr) \<noteq> 0 \<Longrightarrow> unat (drop_bit (Suc 0) m) < unat m"
  by (simp add: unat_drop_bit_eq drop_bit_eq_div unat_div_distrib unat_gt_0)

termination skip_ones
  by (relation "measure (\<lambda>(m, bitidx). unat m)") (auto intro!: drop_bit_1_less)

declare skip_ones.simps [simp del]

text \<open>\<open>count_zeros\<close> is \<^verbatim>\<open>while(zeros < blocks && (m&1)==0) { zeros++; m>>=1; }\<close>.\<close>

function count_zeros :: "uintptr \<Rightarrow> size_t \<Rightarrow> size_t \<Rightarrow> uintptr \<times> size_t" where
  "count_zeros m zeros blocks =
     (if zeros < blocks \<and> m AND 1 = 0 then count_zeros (drop_bit 1 m) (zeros + 1) blocks
      else (m, zeros))"
  by pat_completeness auto

lemma unat_succ_less: "(z::size_t) < b \<Longrightarrow> unat (z + 1) = Suc (unat z)"
proof -
  assume "z < b"
  then have "unat z < unat b" by (simp add: word_less_nat_alt)
  moreover have "unat b < 2 ^ 64" using unsigned_less[of b] by simp
  ultimately have "unat z + unat (1::size_t) < 2 ^ LENGTH(64)" by simp
  then have "unat (z + 1) = unat z + unat (1::size_t)" by (simp only: unat_add_lem)
  then show ?thesis by simp
qed

termination count_zeros
  apply (relation "measure (\<lambda>(m, zeros, blocks). unat blocks - unat zeros)") 
   apply simp
  apply (auto simp: unat_succ_less word_less_nat_alt)
  done

declare count_zeros.simps [simp del]

lemma and_1_eq_1_iff: "((m::uintptr) AND 1 = 1) = bit m 0"
   by (simp add: and_one_eq bit_0 odd_iff_mod_2_eq_one)

lemma and_1_eq_0_iff: "((m::uintptr) AND 1 = 0) = (\<not> bit m 0)"
  by (simp add: and_one_eq bit_0 even_iff_mod_2_eq_zero)

lemma skip_ones_shape:
  "\<exists>k. skip_ones m b = (drop_bit k m, b + word_of_nat k) \<and> (\<forall>j<k. bit m j) \<and> \<not> bit m k"
proof (induction m b rule: skip_ones.induct)
  case (1 m bitidx)
  show ?case
  proof (cases "m AND 1 = 1")
    case True
    from 1[OF True] obtain k where k: "skip_ones (drop_bit 1 m) (bitidx + 1) = (drop_bit k (drop_bit 1 m), bitidx + 1 + word_of_nat k)"
       "\<forall>j<k. bit (drop_bit 1 m) j" "\<not> bit (drop_bit 1 m) k" by blast
    have b0: "bit m 0" using True by (simp add: and_1_eq_1_iff)
    have "skip_ones m bitidx = (drop_bit (Suc k) m, bitidx + word_of_nat (Suc k))"
      using True k(1) by (subst skip_ones.simps) (simp add: ac_simps)
    moreover have "\<forall>j<Suc k. bit m j"
      using k(2) b0 by (auto simp: bit_drop_bit_eq less_Suc_eq_0_disj)
    moreover have "\<not> bit m (Suc k)" using k(3) by (simp add: bit_drop_bit_eq)
    ultimately show ?thesis by blast
  next
    case False
    then have "skip_ones m bitidx = (drop_bit 0 m, bitidx + word_of_nat 0) \<and> (\<forall>j<0. bit m j) \<and> \<not> bit m 0"
      by (subst skip_ones.simps) (simp add: and_1_eq_1_iff)
    then show ?thesis by blast
  qed
qed

lemma count_zeros_shape:
  "\<exists>k. count_zeros m z blocks = (drop_bit k m, z + word_of_nat k) \<and> (\<forall>j<k. \<not> bit m j)
       \<and> (k = 0 \<or> unat z + k \<le> unat blocks) \<and> (unat z + k < unat blocks \<longrightarrow> bit m k)"
proof (induction m z blocks rule: count_zeros.induct)
  case (1 m zeros blocks)
  show ?case
  proof (cases "zeros < blocks \<and> m AND 1 = 0")
    case True
    from 1[OF True] obtain k where k: 
       "count_zeros (drop_bit 1 m) (zeros + 1) blocks = (drop_bit k (drop_bit 1 m), zeros + 1 + word_of_nat k)"
       "\<forall>j<k. \<not> bit (drop_bit 1 m) j" "k = 0 \<or> unat (zeros + 1) + k \<le> unat blocks"
       "unat (zeros + 1) + k < unat blocks \<longrightarrow> bit (drop_bit 1 m) k" by blast
    have z1: "unat (zeros + 1) = Suc (unat zeros)" using True unat_succ_less by blast
    have b0: "\<not> bit m 0" using True by (simp add: and_1_eq_0_iff)
    have "count_zeros m zeros blocks = (drop_bit (Suc k) m, zeros + word_of_nat (Suc k))"
      using True k(1) by (subst count_zeros.simps) (simp add: ac_simps)
    moreover have "\<forall>j<Suc k. \<not> bit m j"
      using k(2) b0 by (auto simp: bit_drop_bit_eq less_Suc_eq_0_disj)
    moreover have "unat zeros + Suc k \<le> unat blocks"
      using k(3) z1 True by (auto simp: word_less_nat_alt)
    moreover have "unat zeros + Suc k < unat blocks \<longrightarrow> bit m (Suc k)"
      using k(4) z1 by (simp add: bit_drop_bit_eq)
    ultimately show ?thesis by blast
  next
    case False
    then have "count_zeros m zeros blocks = (drop_bit 0 m, zeros + word_of_nat 0) \<and> (\<forall>j<0. \<not> bit m j) 
               \<and> (unat zeros + 0 < unat blocks \<longrightarrow> bit m 0)"
      by (subst count_zeros.simps) (auto simp add: and_1_eq_0_iff word_less_nat_alt)
    then show ?thesis by blast
  qed
qed


lemma drop_bit_Suc_less: "(m::uintptr) \<noteq> 0 \<Longrightarrow> unat (drop_bit (Suc n) m) < unat m"
proof -
  assume "m \<noteq> 0"
  then have pos: "0 < unat m" by (simp add: unat_gt_0)
  have "unat (drop_bit (Suc n) m) = drop_bit (Suc n) (unat m)"
    by (rule unat_drop_bit_eq)
  also have "\<dots> = unat m div 2 ^ Suc n"
    by (rule drop_bit_eq_div)
  also have "\<dots> < unat m"
  proof -
    have "1 < (2::nat) ^ Suc n" by (rule one_less_power) auto
    then show ?thesis using pos by (rule div_less_dividend)
  qed
  finally show ?thesis .
qed

lemma unat_64_minus: "c \<le> (64::size_t) \<Longrightarrow> unat (64 - c) = 64 - unat c"
  by (simp add: unat_sub)

lemma find_range_decreases:
  assumes s: "skip_ones m bitidx = (m1, bitidx1)"
    and c: "count_zeros (drop_bit 1 m1) 1 blocks = (m2, zeros)"
    and ne: "zeros \<noteq> blocks"
    and le: "bitidx1 + zeros \<le> MI_REGION_MAP_BITS - blocks"
  shows "unat m2 < unat m \<or>
         unat m2 = unat m \<and>
         unat (MI_REGION_MAP_BITS - blocks - (bitidx1 + zeros)) < unat (MI_REGION_MAP_BITS - blocks - bitidx)"
proof -
  obtain k1 where k1: "skip_ones m bitidx = (drop_bit k1 m, bitidx + word_of_nat k1)"
    "\<forall>j<k1. bit m j" using skip_ones_shape by blast
  obtain k2 where k2: "count_zeros (drop_bit 1 m1) 1 blocks = (drop_bit k2 (drop_bit 1 m1), 1 + word_of_nat k2)"
    "k2 = 0 \<or> unat (1::size_t) + k2 \<le> unat blocks" 
    "unat (1::size_t) + k2 < unat blocks \<longrightarrow> bit (drop_bit 1 m1) k2" using count_zeros_shape by blast
  have m1: "m1 = drop_bit k1 m" and b1: "bitidx1 = bitidx + word_of_nat k1" using s k1(1) by auto
  have m2: "m2 = drop_bit (Suc (k1 + k2)) m" and z: "zeros = 1 + word_of_nat k2" 
    using c k2(1) m1 by (auto simp: ac_simps)
  show ?thesis
  proof (cases "m = 0")
    case False
    then show ?thesis using drop_bit_Suc_less[of m "k1 + k2"] m2 by simp
  next
    case True
    have k10: "k1 = 0" using k1(2) True by (cases k1) auto
    have "m1 = 0" using m1 True by simp
    then have ge: "unat blocks \<le> 1 + k2" using k2(3) by (simp add: not_less[symmetric]) 
    have k20: "k2 = 0"
    proof (rule ccontr)
      assume "k2 \<noteq> 0"
      then have "unat blocks = 1 + k2" using k2(2) ge by simp
      moreover have "word_of_nat (unat blocks) = blocks" by simp
      ultimately have "word_of_nat (1 + k2) = blocks" by simp
      then show False using z ne by simp
    qed
    have z1: "zeros = 1" using z k20 by simp
    have "unat blocks \<le> 1" using ge k20 by simp
    moreover have "blocks \<noteq> 1" using ne z1 by simp
    ultimately have b0: "blocks = 0" by (metis le_less less_one unat_0_iff unat_1 word_unat_eq_iff One_nat_def)
    let ?c = "bitidx + 1"
    have cle: "unat ?c \<le> 64" using le b1 k10 z1 b0 by (simp add: MI_REGION_MAP_BITS_def MI_INTPTR_SIZE_def word_le_nat_alt)
    then have c64: "?c \<le> 64" by (simp add: word_le_nat_alt)
    have u1: "unat (64 - ?c) = 64 - unat ?c" using c64 by (rule unat_64_minus)
    have "64 - bitidx = (64 - ?c) + 1" by simp
    moreover have "unat ((64 - ?c) + 1) = unat (64 - ?c) + unat (1::size_t)"
      using u1 by (subst unat_add_lem[symmetric]) simp
    ultimately have "unat (64 - bitidx) = Suc (64 - unat ?c)" using u1 by simp
    then show ?thesis using True m2 u1 b1 k10 z1 b0
      by (simp add: MI_REGION_MAP_BITS_def MI_INTPTR_SIZE_def)
  qed
qed

text \<open>
  \<open>find_range\<close> is the inner \<^verbatim>\<open>do { ... } while(bitidx <= bitidx_max)\<close>, with
  \<^verbatim>\<open>bitidx_max = MI_REGION_MAP_BITS - blocks\<close>; it returns \<^verbatim>\<open>bitidx\<close> as the loop leaves it
  (by the \<^verbatim>\<open>break\<close> or by the loop condition).
\<close>

function find_range :: "uintptr \<Rightarrow> size_t \<Rightarrow> size_t \<Rightarrow> size_t" where
  "find_range m bitidx blocks =
     (let (m1, bitidx1) = skip_ones m bitidx;
          (m2, zeros) = count_zeros (drop_bit 1 m1) 1 blocks
      in if zeros = blocks then bitidx1
         else let bitidx2 = bitidx1 + zeros
              in if bitidx2 \<le> MI_REGION_MAP_BITS - blocks then find_range m2 bitidx2 blocks
                 else bitidx2)"
  by pat_completeness auto
termination
proof (relation "inv_image (less_than <*lex*> less_than) (\<lambda>(m, bitidx, blocks). (unat m, unat (MI_REGION_MAP_BITS - blocks - bitidx)))")
  show "wf (inv_image (less_than <*lex*> less_than) (\<lambda>(m, bitidx, blocks). (unat m, unat (MI_REGION_MAP_BITS - blocks - bitidx))))"
    by (intro wf_inv_image wf_lex_prod wf_less_than)
next
  fix m bitidx blocks :: uintptr and x m1 bitidx1 xb m2 zeros bitidx2
  assume "x = skip_ones m bitidx" "(m1, bitidx1) = x" "xb = count_zeros (drop_bit 1 m1) 1 blocks"
    "(m2, zeros) = xb" "zeros \<noteq> blocks" "bitidx2 = bitidx1 + zeros" "bitidx2 \<le> MI_REGION_MAP_BITS - blocks"
  then show "((m2, bitidx2, blocks), m, bitidx, blocks) \<in> inv_image (less_than <*lex*> less_than) (\<lambda>(m, bitidx, blocks). (unat m, unat (MI_REGION_MAP_BITS - blocks - bitidx)))"
    using find_range_decreases[of m bitidx m1 bitidx1 blocks m2 zeros] by simp
qed

declare find_range.simps [simp del]


subsection \<open>Claiming and unclaiming bits\<close>

text \<open>
  A compare-and-swap whose expected value was just read fails only when another
  thread's write arrived in between, which uses up one entry of \<open>others_map\<close>. This
  is what makes the retry loops terminate in the model.
\<close>

lemma compare_exchange_fails:
  "mi_atomic_compare_exchange idx exchange (map_word (regions s idx)) s = (False, s') \<Longrightarrow>
   length (others_map s') < length (others_map s)"
  by (cases "others_map s")
     (auto simp: mi_atomic_compare_exchange_def others_write_map_def Let_def split: if_splits)

text \<open>
  The unclaim loop, written twice in the source (in \<^verbatim>\<open>mi_region_commit_blocks\<close> after a
  failed reservation, and at the end of \<^verbatim>\<open>_mi_mem_free\<close>):
  \<^verbatim>\<open>do { map = mi_atomic_read(&region->map); }
  while (!mi_atomic_compare_exchange(&region->map, map & ~mask, map));\<close>
\<close>

function unclaim :: "nat \<Rightarrow> uintptr \<Rightarrow> state \<Rightarrow> state" where
  "unclaim idx bmask s =
     (let map_v = map_word (regions s idx);
          (ok, s') = mi_atomic_compare_exchange idx (map_v AND NOT bmask) map_v s
      in if ok then s' else unclaim idx bmask s')"
  by pat_completeness auto
termination
  by (relation "measure (\<lambda>(idx, bmask, s). length (others_map s))")
     (auto dest: compare_exchange_fails[OF sym])

declare unclaim.simps [simp del]

text \<open>
  The outer \<^verbatim>\<open>do { ... } while(!mi_atomic_compare_exchange(&region->map, newmap, map))\<close>
  of \<^verbatim>\<open>mi_region_alloc_blocks\<close>. \<^verbatim>\<open>bitidx\<close> is declared before the loop and is not reset
  inside it, so a retry continues from the \<^verbatim>\<open>bitidx\<close> of the failed attempt while \<^verbatim>\<open>m\<close>
  starts again from the whole map: \<open>bitidx\<close> is an argument of the loop.
  The result \<open>Some (None, s)\<close> is the \<^verbatim>\<open>return true\<close> without a range,
  \<open>Some (Some bitidx, s)\<close> a successful claim at \<open>bitidx\<close>.
\<close>

function claim_loop :: "nat \<Rightarrow> size_t \<Rightarrow> uintptr \<Rightarrow> size_t \<Rightarrow> state \<Rightarrow> (size_t option \<times> state) option" where
  "claim_loop idx blocks bmask bitidx s =
     (let map_v = map_word (regions s idx);
          bitidx' = find_range map_v bitidx blocks
      in if bitidx' > MI_REGION_MAP_BITS - blocks then Some (None, s)
         else case shiftl_c bmask bitidx' of
                None \<Rightarrow> None
              | Some shifted \<Rightarrow>
                  let newmap = map_v OR shifted;
                      (ok, s') = mi_atomic_compare_exchange idx newmap map_v s
                  in if ok then Some (Some bitidx', s')
                     else claim_loop idx blocks bmask bitidx' s')"
  by pat_completeness auto
termination
  by (relation "measure (\<lambda>(idx, blocks, bmask, bitidx, s). length (others_map s))")
     (auto dest: compare_exchange_fails[OF sym])

declare claim_loop.simps [simp del]

subsection \<open>Commit from a region\<close>

text \<open>
  \<^verbatim>\<open>mi_region_commit_blocks\<close>. The out-parameters \<^verbatim>\<open>*p\<close> and \<^verbatim>\<open>*id\<close> are passed in
  and returned (\<open>memid\<close> is \<^verbatim>\<open>*id\<close>); the result is the returned \<^verbatim>\<open>bool\<close>, \<^verbatim>\<open>*p\<close>, \<^verbatim>\<open>*id\<close>
  and the state. \<^verbatim>\<open>region\<close> is \<^verbatim>\<open>&regions[idx]\<close> at every call. \<^verbatim>\<open>mi_assert_internal\<close>
  is a debug assertion; the model is the build without it, for which the source itself
  follows the assertions it relies on with an explicit \<^verbatim>\<open>if (...) return\<close>.
\<close>

definition mi_region_commit_blocks ::
  "os \<Rightarrow> size_t \<Rightarrow> size_t \<Rightarrow> size_t \<Rightarrow> size_t \<Rightarrow> bool \<Rightarrow> uintptr \<Rightarrow> size_t \<Rightarrow> state
   \<Rightarrow> (bool \<times> uintptr \<times> size_t \<times> state) option" where
  "mi_region_commit_blocks e idx bitidx blocks sz commit p memid s =
     (case mi_region_block_mask blocks bitidx of
        None \<Rightarrow> None
      | Some bmask \<Rightarrow>
          let start0 = start (regions s (unat idx));
              (reserved, start1, s1) =
                (if start0 = 0 then
                   let (r, sa) = mi_os_alloc_aligned e MI_REGION_SIZE MI_SEGMENT_ALIGN
                                   (eager_region_commit e) s
                   in if r = 0 then (False, r, unclaim (unat idx) bmask sa)
                      else let (won, sb) = mi_atomic_compare_exchange_ptr (unat idx) r 0 sa
                           in if won then (True, r, mi_atomic_increment sb)
                              else let sc = mi_os_free r MI_REGION_SIZE sb
                                   in (True, start (regions sc (unat idx)), sc)
                 else (True, start0, s))
          in if \<not> reserved then Some (False, p, memid, s1)
             else
               let blocks_start = start1 + bitidx * MI_SEGMENT_SIZE
               in case (if commit \<and> \<not> eager_region_commit e
                        then (case mi_good_commit_size e sz of
                                None \<Rightarrow> None
                              | Some csz \<Rightarrow> Some (snd (mi_os_commit e blocks_start csz s1)))
                        else Some s1) of
                    None \<Rightarrow> None
                  | Some s2 \<Rightarrow>
                      Some (True, blocks_start, idx * MI_REGION_MAP_BITS + bitidx,
                            s2\<lparr>region_next_idx := idx\<rparr>))"

text \<open>\<^verbatim>\<open>mi_region_alloc_blocks\<close>: claim \<open>blocks\<close> bits in the region at \<open>idx\<close>, then commit.\<close>

definition mi_region_alloc_blocks ::
  "os \<Rightarrow> size_t \<Rightarrow> size_t \<Rightarrow> size_t \<Rightarrow> bool \<Rightarrow> uintptr \<Rightarrow> size_t \<Rightarrow> state
   \<Rightarrow> (bool \<times> uintptr \<times> size_t \<times> state) option" where
  "mi_region_alloc_blocks e idx blocks sz commit p memid s =
     (case mi_region_block_mask blocks 0 of
        None \<Rightarrow> None
      | Some bmask \<Rightarrow>
          (case claim_loop (unat idx) blocks bmask 0 s of
             None \<Rightarrow> None
           | Some (None, s') \<Rightarrow> Some (True, p, memid, s')
           | Some (Some bitidx, s') \<Rightarrow>
               mi_region_commit_blocks e idx bitidx blocks sz commit p memid s'))"

text \<open>\<^verbatim>\<open>mi_region_try_alloc_blocks\<close>: a quick check before trying to claim.\<close>

definition mi_region_try_alloc_blocks ::
  "os \<Rightarrow> size_t \<Rightarrow> size_t \<Rightarrow> size_t \<Rightarrow> bool \<Rightarrow> uintptr \<Rightarrow> size_t \<Rightarrow> state
   \<Rightarrow> (bool \<times> uintptr \<times> size_t \<times> state) option" where
  "mi_region_try_alloc_blocks e idx blocks sz commit p memid s =
     (let m = map_word (regions s (unat idx))
      in if m \<noteq> MI_REGION_MAP_FULL
         then mi_region_alloc_blocks e idx blocks sz commit p memid s
         else Some (True, p, memid, s))"

subsection \<open>Allocation\<close>

text \<open>
  The first loop of \<^verbatim>\<open>_mi_mem_alloc_aligned\<close>:
  \<^verbatim>\<open>for (visited = 0; visited < count; visited++, idx++)\<close> over the regions
  \<^verbatim>\<open>idx%count\<close>. The result \<open>(False, _)\<close> is the \<^verbatim>\<open>return NULL\<close> on an error,
  \<open>(True, p, _)\<close> with \<open>p \<noteq> 0\<close> the \<^verbatim>\<open>break\<close>.
\<close>

function first_sweep ::
  "os \<Rightarrow> size_t \<Rightarrow> size_t \<Rightarrow> bool \<Rightarrow> size_t \<Rightarrow> size_t \<Rightarrow> size_t \<Rightarrow> uintptr \<Rightarrow> size_t \<Rightarrow> state
   \<Rightarrow> (bool \<times> uintptr \<times> size_t \<times> state) option" where
  "first_sweep e blocks sz commit count visited idx p memid s =
     (if visited < count then
        (case mi_region_try_alloc_blocks e (idx mod count) blocks sz commit p memid s of
           None \<Rightarrow> None
         | Some (ok, p', memid', s') \<Rightarrow>
             if \<not> ok then Some (False, p', memid', s')
             else if p' \<noteq> 0 then Some (True, p', memid', s')
             else first_sweep e blocks sz commit count (visited + 1) (idx + 1) p' memid' s')
      else Some (True, p, memid, s))"
  by pat_completeness auto
termination
  by (relation "measure (\<lambda>(e, blocks, sz, commit, count, visited, idx, p, memid, s). unat count - unat visited)")
     (auto simp: unat_succ_less word_less_nat_alt)

declare first_sweep.simps [simp del]

text \<open>The second loop: \<^verbatim>\<open>for (idx = count; idx < MI_REGION_MAX; idx++)\<close>.\<close>

function second_sweep ::
  "os \<Rightarrow> size_t \<Rightarrow> size_t \<Rightarrow> bool \<Rightarrow> size_t \<Rightarrow> uintptr \<Rightarrow> size_t \<Rightarrow> state
   \<Rightarrow> (bool \<times> uintptr \<times> size_t \<times> state) option" where
  "second_sweep e blocks sz commit idx p memid s =
     (if idx < MI_REGION_MAX then
        (case mi_region_try_alloc_blocks e idx blocks sz commit p memid s of
           None \<Rightarrow> None
         | Some (ok, p', memid', s') \<Rightarrow>
             if \<not> ok then Some (False, p', memid', s')
             else if p' \<noteq> 0 then Some (True, p', memid', s')
             else second_sweep e blocks sz commit (idx + 1) p' memid' s')
      else Some (True, p, memid, s))"
  by pat_completeness auto
termination
  by (relation "measure (\<lambda>(e, blocks, sz, commit, idx, p, memid, s). unat MI_REGION_MAX - unat idx)")
     (auto simp: unat_succ_less word_less_nat_alt)

declare second_sweep.simps [simp del]

text \<open>
  \<^verbatim>\<open>_mi_mem_alloc_aligned\<close>: the result is the returned pointer, \<^verbatim>\<open>*id\<close> and the state.
\<close>

definition mi_mem_alloc_aligned ::
  "os \<Rightarrow> size_t \<Rightarrow> size_t \<Rightarrow> bool \<Rightarrow> state \<Rightarrow> (uintptr \<times> size_t \<times> state) option" where
  "mi_mem_alloc_aligned e sz alignment commit s =
     (let memid = SIZE_MAX
      in if sz > MI_REGION_MAX_ALLOC_SIZE \<or> alignment > MI_SEGMENT_ALIGN then
           (case mi_good_commit_size e sz of
              None \<Rightarrow> None
            | Some csz \<Rightarrow>
                let (r, s') = mi_os_alloc_aligned e csz alignment True s
                in Some (r, memid, s'))
         else
           (case mi_align_up sz (os_page_size e) of
              None \<Rightarrow> None
            | Some sz' \<Rightarrow>
                let blocks = mi_region_block_count sz';
                    (count, s0) = mi_atomic_read_count s;
                    idx = region_next_idx s0
                in case first_sweep e blocks sz' commit count 0 idx 0 memid s0 of
                     None \<Rightarrow> None
                   | Some (ok1, p1, memid1, s1) \<Rightarrow>
                       if \<not> ok1 then Some (0, memid1, s1)
                       else
                         case (if p1 = 0 then second_sweep e blocks sz' commit count p1 memid1 s1
                               else Some (True, p1, memid1, s1)) of
                           None \<Rightarrow> None
                         | Some (ok2, p2, memid2, s2) \<Rightarrow>
                             if \<not> ok2 then Some (0, memid2, s2)
                             else if p2 = 0 then
                               let (r, s3) = mi_os_alloc_aligned e sz' alignment commit s2
                               in Some (r, memid2, s3)
                             else Some (p2, memid2, s2)))"

definition mi_mem_alloc :: "os \<Rightarrow> size_t \<Rightarrow> bool \<Rightarrow> state \<Rightarrow> (uintptr \<times> size_t \<times> state) option" where
  "mi_mem_alloc e sz commit s = mi_mem_alloc_aligned e sz 0 commit s"

subsection \<open>Free\<close>

text \<open>\<^verbatim>\<open>_mi_mem_free\<close>: free previously allocated memory with a given id.\<close>

definition mi_mem_free :: "os \<Rightarrow> uintptr \<Rightarrow> size_t \<Rightarrow> size_t \<Rightarrow> state \<Rightarrow> state option" where
  "mi_mem_free e p sz memid s =
     (if p = 0 then Some s
      else if sz = 0 then Some s
      else if memid = SIZE_MAX then Some (mi_os_free p sz s)
      else if sz > MI_REGION_MAX_ALLOC_SIZE then Some s
      else
        (case mi_align_up sz (os_page_size e) of
           None \<Rightarrow> None
         | Some sz' \<Rightarrow>
             let idx = memid div MI_REGION_MAP_BITS;
                 bitidx = memid mod MI_REGION_MAP_BITS;
                 blocks = mi_region_block_count sz'
             in case mi_region_block_mask blocks bitidx of
                  None \<Rightarrow> None
                | Some bmask \<Rightarrow>
                    if idx \<ge> MI_REGION_MAX then Some s
                    else
                      let start0 = start (regions s (unat idx));
                          blocks_start = start0 + bitidx * MI_SEGMENT_SIZE
                      in if blocks_start \<noteq> p \<or> bitidx + blocks > MI_REGION_MAP_BITS then Some s
                         else
                           let s1 = (if eager_region_commit e then mi_os_reset p sz' s
                                     else mi_os_decommit p sz' s)
                           in Some (unclaim (unat idx) bmask s1)))"

subsection \<open>The spec's free run\<close>

text \<open>
  The spec's condition on a bit index \<open>i\<close> for \<open>b\<close> blocks in the map \<open>mp\<close>, in its
  words: \<open>i + B \<le> W\<close> and \<open>map & mask(B, i) == 0\<close>.
\<close>

definition free_run :: "uintptr \<Rightarrow> nat \<Rightarrow> nat \<Rightarrow> bool" where
  "free_run mp b i \<longleftrightarrow> i + b \<le> 64 \<and> mp AND push_bit i (mask b) = 0"

subsection \<open>Well-formed environments and states\<close>

text \<open>
  A reservation of a region is usable when it is not \<^verbatim>\<open>NULL\<close>, is aligned as requested
  (to \<^verbatim>\<open>MI_SEGMENT_ALIGN\<close>) and lies within the address space.
\<close>

definition region_ptr_ok :: "uintptr \<Rightarrow> bool" where
  "region_ptr_ok q \<longleftrightarrow>
     q \<noteq> 0 \<and> q mod MI_SEGMENT_ALIGN = 0 \<and> unat q + unat MI_REGION_SIZE \<le> 2 ^ 64"

text \<open>
  What the theorems ask of the OS: a non-zero page size that divides the segment size, a
  non-zero large page size, and reservations of regions that are \<^verbatim>\<open>NULL\<close> or usable.
\<close>

definition os_ok :: "os \<Rightarrow> bool" where
  "os_ok e \<longleftrightarrow>
     os_page_size e \<noteq> 0 \<and> MI_SEGMENT_SIZE mod os_page_size e = 0 \<and>
     os_large_page_size e \<noteq> 0 \<and>
     (\<forall>h c. os_alloc_result e h MI_REGION_SIZE MI_SEGMENT_ALIGN c = 0 \<or>
            region_ptr_ok (os_alloc_result e h MI_REGION_SIZE MI_SEGMENT_ALIGN c))"

text \<open>
  The invariant of the globals between two calls of this thread: the regions with a
  \<^verbatim>\<open>start\<close> are those that \<^verbatim>\<open>regions_count\<close> counts and those whose publisher has its
  increment pending, every \<^verbatim>\<open>start\<close> is \<^verbatim>\<open>NULL\<close> or usable, and so is what other threads
  publish.
\<close>

definition started :: "state \<Rightarrow> nat set" where
  "started s = {i. i < unat MI_REGION_MAX \<and> start (regions s i) \<noteq> 0}"

definition state_ok :: "state \<Rightarrow> bool" where
  "state_ok s \<longleftrightarrow>
     unat (regions_count s) + others_pending s = card (started s) \<and>
     (\<forall>i. start (regions s i) = 0 \<or> region_ptr_ok (start (regions s i))) \<and>
     (\<forall>q \<in> set (others_start s). q = 0 \<or> region_ptr_ok q)"

text \<open>
  The globals between this thread's publication of a \<^verbatim>\<open>start\<close> (line 130) and its
  increment of \<^verbatim>\<open>regions_count\<close> (line 132): one more \<^verbatim>\<open>start\<close> is published than the
  counter and the pending increments of the other threads account for.
\<close>

definition publication_lags :: "state \<Rightarrow> bool" where
  "publication_lags s \<longleftrightarrow>
     unat (regions_count s) + others_pending s + 1 = card (started s) \<and>
     (\<forall>i. start (regions s i) = 0 \<or> region_ptr_ok (start (regions s i))) \<and>
     (\<forall>q \<in> set (others_start s). q = 0 \<or> region_ptr_ok q)"

subsection \<open>Auxiliary definitions for the proofs\<close>

text \<open>What the loops on a map leave alone: everything but the maps, the trace and \<open>others_map\<close>.\<close>

definition same_but_maps :: "state \<Rightarrow> state \<Rightarrow> bool" where
  "same_but_maps s s' \<longleftrightarrow>
     (\<forall>j. start (regions s' j) = start (regions s j)) \<and>
     regions_count s' = regions_count s \<and> region_next_idx s' = region_next_idx s \<and>
     others_start s' = others_start s \<and> others_pending s' = others_pending s \<and>
     others_count s' = others_count s"

text \<open>
  Events that a successful claim of the pointer \<open>p\<close> may add to the trace: no failed
  reservation of a region, and commits of \<open>p\<close> only.
\<close>

definition benign :: "event list \<Rightarrow> uintptr \<Rightarrow> bool" where
  "benign evs p \<longleftrightarrow>
     (\<forall>ev \<in> set evs.
        (\<forall>c. ev \<noteq> Os_alloc_aligned MI_REGION_SIZE MI_SEGMENT_ALIGN c 0) \<and>
        (\<forall>q csz k. ev = Os_commit q csz k \<longrightarrow> q = p))"

text \<open>
  The part of \<^verbatim>\<open>mi_region_commit_blocks\<close> after the region is reserved, from the
  comment "Commit the blocks to memory" on, named for the proofs.
\<close>

definition commit_rest ::
  "os \<Rightarrow> size_t \<Rightarrow> size_t \<Rightarrow> size_t \<Rightarrow> bool \<Rightarrow> uintptr \<Rightarrow> state
   \<Rightarrow> (bool \<times> uintptr \<times> size_t \<times> state) option" where
  "commit_rest e idx bitidx sz commit start1 s1 =
     (let blocks_start = start1 + bitidx * MI_SEGMENT_SIZE
      in case (if commit \<and> \<not> eager_region_commit e
               then (case mi_good_commit_size e sz of
                       None \<Rightarrow> None
                     | Some csz \<Rightarrow> Some (snd (mi_os_commit e blocks_start csz s1)))
               else Some s1) of
           None \<Rightarrow> None
         | Some s2 \<Rightarrow>
             Some (True, blocks_start, idx * MI_REGION_MAP_BITS + bitidx,
                   s2\<lparr>region_next_idx := idx\<rparr>))"

subsection \<open>Outcomes of a try on a region\<close>

text \<open>
  The outcomes of a try on one region in a quiet environment, besides leaving everything
  as it is: the reservation failed and the claim was rolled back, or \<open>blocks\<close> bits were
  claimed at the first fit.
\<close>

definition out_of_memory ::
  "os \<Rightarrow> uintptr \<Rightarrow> size_t \<Rightarrow> state \<Rightarrow> bool \<times> uintptr \<times> size_t \<times> state \<Rightarrow> bool" where
  "out_of_memory e p memid s r \<longleftrightarrow>
     (\<exists>s' idx m. r = (False, p, memid, s') \<and>
        regions s' = regions s \<and> regions_count s' = regions_count s \<and>
        region_next_idx s' = region_next_idx s \<and>
        others_map s' = [] \<and> others_start s' = others_start s \<and>
        trace s' = trace s @
          [Map_write idx m,
           Os_alloc_aligned MI_REGION_SIZE MI_SEGMENT_ALIGN (eager_region_commit e) 0,
           Map_write idx (map_word (regions s idx))])"

definition claimed ::
  "size_t \<Rightarrow> size_t \<Rightarrow> state \<Rightarrow> bool \<times> uintptr \<times> size_t \<times> state \<Rightarrow> bool" where
  "claimed idx blocks s r \<longleftrightarrow>
     (\<exists>bitidx p' s' evs.
        r = (True, p', idx * MI_REGION_MAP_BITS + bitidx, s') \<and> p' \<noteq> 0 \<and>
        p' = start (regions s' (unat idx)) + bitidx * MI_SEGMENT_SIZE \<and>
        free_run (map_word (regions s (unat idx))) (unat blocks) (unat bitidx) \<and>
        (\<forall>i < unat bitidx. \<not> free_run (map_word (regions s (unat idx))) (unat blocks) i) \<and>
        map_word (regions s' (unat idx)) =
          map_word (regions s (unat idx)) OR push_bit (unat bitidx) (mask (unat blocks)) \<and>
        (\<forall>j. j \<noteq> unat idx \<longrightarrow> regions s' j = regions s j) \<and>
        others_map s' = [] \<and>
        trace s' = trace s @ Map_write (unat idx) (map_word (regions s' (unat idx))) # evs \<and>
        benign evs p')"

text \<open>
  The outcomes of a try on a region under any interference: with the events \<open>evs\<close> it
  adds to the trace, either \<^verbatim>\<open>*p\<close> and \<^verbatim>\<open>*id\<close> are as they were and nothing was committed,
  or the try succeeded and \<^verbatim>\<open>*p\<close> and \<^verbatim>\<open>*id\<close> are a block of a region whose bits are set in
  the map, the only block that a commit was asked for.
\<close>

definition no_commits :: "event list \<Rightarrow> bool" where
  "no_commits evs \<longleftrightarrow> (\<forall>q csz k. Os_commit q csz k \<notin> set evs)"

definition commits_only :: "event list \<Rightarrow> uintptr \<Rightarrow> bool" where
  "commits_only evs p \<longleftrightarrow> (\<forall>q csz k. Os_commit q csz k \<in> set evs \<longrightarrow> q = p)"

definition claim_held :: "size_t \<Rightarrow> uintptr \<Rightarrow> size_t \<Rightarrow> state \<Rightarrow> bool" where
  "claim_held blocks p memid s \<longleftrightarrow>
     (\<exists>j bitidx. unat j < unat MI_REGION_MAX \<and> unat bitidx < 64 \<and>
        memid = j * MI_REGION_MAP_BITS + bitidx \<and> p \<noteq> 0 \<and>
        p = start (regions s (unat j)) + bitidx * MI_SEGMENT_SIZE \<and>
        map_word (regions s (unat j)) AND push_bit (unat bitidx) (mask (unat blocks)) =
          push_bit (unat bitidx) (mask (unat blocks)))"

definition tried ::
  "size_t \<Rightarrow> uintptr \<Rightarrow> size_t \<Rightarrow> state \<Rightarrow> bool \<times> uintptr \<times> size_t \<times> state \<Rightarrow> bool" where
  "tried blocks p memid s r \<longleftrightarrow>
     (\<exists>okay p' memid' s' evs.
        r = (okay, p', memid', s') \<and> trace s' = trace s @ evs \<and>
        (p' = p \<and> memid' = memid \<and> no_commits evs \<or>
         okay \<and> claim_held blocks p' memid' s' \<and> commits_only evs p'))"

subsection \<open>Concrete inputs\<close>

text \<open>
  An OS whose reservations all return \<open>r\<close> and whose commits all return \<open>ok\<close>, with 4 KiB
  pages, 2 MiB large pages and lazy commit; and a quiet state whose region 0 has the map
  \<open>mp\<close> and the start \<open>st\<close>, every other region being untouched.
\<close>

definition demo_os :: "uintptr \<Rightarrow> bool \<Rightarrow> os" where
  "demo_os r ok =
     \<lparr>os_page_size = 4096, os_large_page_size = 2097152, eager_region_commit = False,
      os_alloc_result = (\<lambda>h sz alignment commit. r),
      os_commit_result = (\<lambda>h p sz. ok)\<rparr>"

definition demo_state :: "uintptr \<Rightarrow> uintptr \<Rightarrow> state" where
  "demo_state mp st =
     \<lparr>regions = (\<lambda>i. if i = 0 then \<lparr>map_word = mp, start = st\<rparr>
                       else \<lparr>map_word = 0, start = 0\<rparr>),
      regions_count = (if st = 0 then 0 else 1),
      region_next_idx = 0,
      trace = [],
      others_map = [],
      others_start = [],
      others_pending = 0,
      others_count = []\<rparr>"

section \<open>Properties\<close>

lemmas const_defs = MI_INTPTR_SIZE_def MI_SEGMENT_SIZE_def MI_HEAP_REGION_MAX_SIZE_def
  MI_SEGMENT_ALIGN_def MI_REGION_MAP_BITS_def MI_REGION_SIZE_def MI_REGION_MAX_ALLOC_SIZE_def
  MI_REGION_MAX_def MI_REGION_MAP_FULL_def SIZE_MAX_def

subsection \<open>The bitmap helpers\<close>

lemma block_count_unat:
  assumes "sz \<le> MI_REGION_MAX_ALLOC_SIZE"
  shows "unat (mi_region_block_count sz) = (unat sz + 4194303) div 4194304"
proof -
  have le: "unat sz \<le> 67108864" using assms by (simp add: const_defs word_le_nat_alt)
  have "unat (sz + MI_SEGMENT_SIZE - 1) = unat sz + 4194303"
    using le by (simp add: const_defs unat_word_ariths)
  then show ?thesis
    by (simp add: mi_region_block_count_def unat_div) (simp add: const_defs)
qed

lemma block_mask_Some:
  assumes "blocks < MI_REGION_MAP_BITS" "bitidx < MI_REGION_MAP_BITS"
  shows "mi_region_block_mask blocks bitidx = Some (push_bit (unat bitidx) (mask (unat blocks)))"
  using assms
  by (simp add: mi_region_block_mask_def shiftl_c_def const_defs mask_eq_decr_exp push_bit_eq_mult)

lemma bit_block_mask:
  assumes "i + b \<le> 64"
  shows "bit (push_bit i (mask b) :: uintptr) k \<longleftrightarrow> i \<le> k \<and> k < i + b"
  using assms by (auto simp: bit_simps)

text \<open>
  C9 (as amended). For a size up to \<^verbatim>\<open>MI_REGION_MAX_ALLOC_SIZE\<close> the block count is the
  ceiling of \<open>sz / MI_SEGMENT_SIZE\<close> (the least \<open>n\<close> with \<open>sz \<le> n * MI_SEGMENT_SIZE\<close>),
  computed without wrap-around, and at most \<open>MI_REGION_MAP_BITS / 4\<close>. For \<open>blocks\<close> and
  \<open>bitidx\<close> both below \<open>MI_REGION_MAP_BITS\<close> with \<open>blocks + bitidx \<le> MI_REGION_MAP_BITS\<close>,
  the mask is defined and is the word with exactly the bits \<open>[bitidx, bitidx + blocks)\<close>
  set.
\<close>

theorem block_count_and_mask:
  "(sz \<le> MI_REGION_MAX_ALLOC_SIZE \<longrightarrow>
      unat sz \<le> unat (mi_region_block_count sz) * unat MI_SEGMENT_SIZE \<and>
      unat (mi_region_block_count sz) * unat MI_SEGMENT_SIZE < unat sz + unat MI_SEGMENT_SIZE \<and>
      mi_region_block_count sz \<le> MI_REGION_MAP_BITS div 4) \<and>
   (blocks < MI_REGION_MAP_BITS \<and> bitidx < MI_REGION_MAP_BITS \<and>
    unat blocks + unat bitidx \<le> unat MI_REGION_MAP_BITS \<longrightarrow>
      mi_region_block_mask blocks bitidx = Some (push_bit (unat bitidx) (mask (unat blocks))) \<and>
      (\<forall>k. bit (push_bit (unat bitidx) (mask (unat blocks)) :: uintptr) k \<longleftrightarrow>
             unat bitidx \<le> k \<and> k < unat bitidx + unat blocks))"
proof (intro conjI impI)
  assume le: "sz \<le> MI_REGION_MAX_ALLOC_SIZE"
  have seg: "unat MI_SEGMENT_SIZE = 4194304" by (simp add: const_defs)
  have bc: "unat (mi_region_block_count sz) = (unat sz + 4194303) div 4194304"
    using le by (rule block_count_unat)
  show "unat sz \<le> unat (mi_region_block_count sz) * unat MI_SEGMENT_SIZE"
    unfolding bc seg by arith
  show "unat (mi_region_block_count sz) * unat MI_SEGMENT_SIZE < unat sz + unat MI_SEGMENT_SIZE"
    unfolding bc seg by arith
  have "unat sz \<le> 67108864" using le by (simp add: const_defs word_le_nat_alt)
  then have "unat (mi_region_block_count sz) \<le> 16" unfolding bc by arith
  then show "mi_region_block_count sz \<le> MI_REGION_MAP_BITS div 4"
    by (simp add: const_defs word_le_nat_alt)
next
  assume a: "blocks < MI_REGION_MAP_BITS \<and> bitidx < MI_REGION_MAP_BITS \<and>
    unat blocks + unat bitidx \<le> unat MI_REGION_MAP_BITS"
  then show "mi_region_block_mask blocks bitidx = Some (push_bit (unat bitidx) (mask (unat blocks)))"
    by (simp add: block_mask_Some)
  have "unat bitidx + unat blocks \<le> 64" using a by (simp add: const_defs)
  then show "\<forall>k. bit (push_bit (unat bitidx) (mask (unat blocks)) :: uintptr) k \<longleftrightarrow>
             unat bitidx \<le> k \<and> k < unat bitidx + unat blocks"
    by (simp add: bit_block_mask)
qed

theorem block_count_and_mask_witness:
  "(5000000::size_t) \<le> MI_REGION_MAX_ALLOC_SIZE \<and> mi_region_block_count 5000000 = 2 \<and>
   unat (5000000::size_t) \<le> 2 * unat MI_SEGMENT_SIZE \<and>
   (3::size_t) < MI_REGION_MAP_BITS \<and> (2::size_t) < MI_REGION_MAP_BITS \<and>
   mi_region_block_mask 3 2 = Some 28 \<and>
   (\<forall>k. bit (28::uintptr) k \<longleftrightarrow> 2 \<le> k \<and> k < 5)"
  using block_count_and_mask [of 5000000 3 2]
  by (simp add: const_defs mi_region_block_count_def mask_eq_exp_minus_1 push_bit_eq_mult)

text \<open>
  C9 as the spec states it asks only for \<open>blocks + bitidx \<le> MI_REGION_MAP_BITS\<close>. That
  admits \<open>blocks = 64\<close>, \<open>bitidx = 0\<close>, where \<^verbatim>\<open>(uintptr_t)1 << blocks\<close> shifts a 64-bit value
  by 64: the shift overflows and the result is undefined.
\<close>

theorem block_mask_counterexample:
  "unat (64::size_t) + unat (0::size_t) \<le> unat MI_REGION_MAP_BITS \<and>
   mi_region_block_mask 64 0 = None"
  by (simp add: const_defs mi_region_block_mask_def shiftl_c_def)

subsection \<open>Properties of free\<close>

text \<open>
  C10. Free with a null pointer, and free with size 0, return at once: the state,
  with its regions, counters and trace of OS calls, is the one before.
\<close>

theorem free_null_or_empty_is_noop:
  "mi_mem_free e 0 sz memid s = Some s \<and> mi_mem_free e p 0 memid s = Some s"
  by (simp add: mi_mem_free_def)

theorem free_null_or_empty_is_noop_witness:
  "mi_mem_free (demo_os 0 True) 0 4096 0 (demo_state 1 0x40400000) = Some (demo_state 1 0x40400000) \<and>
   mi_mem_free (demo_os 0 True) 0x40400000 0 0 (demo_state 1 0x40400000) =
     Some (demo_state 1 0x40400000)"
  using free_null_or_empty_is_noop [of "demo_os 0 True" 4096 0 "demo_state 1 0x40400000" "0x40400000"]
  by simp

lemma unclaim_trace:
  "\<exists>m. trace (unclaim idx bmask s) = trace s @ [Map_write idx (m AND NOT bmask)]"
proof (induction idx bmask s rule: unclaim.induct)
  case (1 idx bmask s)
  show ?case
  proof (cases "mi_atomic_compare_exchange idx (map_word (regions s idx) AND NOT bmask) (map_word (regions s idx)) s")
    case (Pair ok s')
    show ?thesis
    proof (cases ok)
      case True
      then have "unclaim idx bmask s = s'" using Pair by (subst unclaim.simps) simp
      moreover have "trace s' = trace s @ [Map_write idx (map_word (regions s idx) AND NOT bmask)]"
        using Pair True
        by (auto simp: mi_atomic_compare_exchange_def others_write_map_def Let_def
                 split: if_splits list.splits)
      ultimately show ?thesis by auto
    next
      case False
      then have u: "unclaim idx bmask s = unclaim idx bmask s'" using Pair by (subst unclaim.simps) simp
      have t: "trace s' = trace s"
        using Pair False
        by (auto simp: mi_atomic_compare_exchange_def others_write_map_def Let_def
                 split: if_splits list.splits)
      from "1.IH"[OF refl Pair[symmetric]] False
      obtain m where "trace (unclaim idx bmask s') = trace s' @ [Map_write idx (m AND NOT bmask)]"
        by auto
      then show ?thesis using u t by auto
    qed
  qed
qed

text \<open>
  C6. A free with a region id either changes nothing, or its new events are
  exactly the reset (under eager commit) or the decommit of the range followed by the
  write that clears the bits of the map: the map is never written first. This holds
  whatever the other threads do to the map in between.
\<close>

theorem free_decommits_before_unclaim:
  assumes "memid \<noteq> SIZE_MAX" and "mi_mem_free e p sz memid s = Some s'"
  shows "s' = s \<or>
         (\<exists>sz' m. mi_align_up sz (os_page_size e) = Some sz' \<and>
            trace s' = trace s @
              [if eager_region_commit e then Os_reset p sz' else Os_decommit p sz',
               Map_write (unat (memid div MI_REGION_MAP_BITS)) m])"
proof (cases "s' = s")
  case True
  then show ?thesis by simp
next
  case False
  from assms False obtain sz' bmask where
    sz': "mi_align_up sz (os_page_size e) = Some sz'" and
    s': "s' = unclaim (unat (memid div MI_REGION_MAP_BITS)) bmask
                (if eager_region_commit e then mi_os_reset p sz' s else mi_os_decommit p sz' s)"
    by (auto simp: mi_mem_free_def Let_def split: if_splits option.splits)
  obtain m where "trace s' =
      trace (if eager_region_commit e then mi_os_reset p sz' s else mi_os_decommit p sz' s) @
      [Map_write (unat (memid div MI_REGION_MAP_BITS)) (m AND NOT bmask)]"
    using unclaim_trace s' by blast
  then have "trace s' = trace s @
              [if eager_region_commit e then Os_reset p sz' else Os_decommit p sz',
               Map_write (unat (memid div MI_REGION_MAP_BITS)) (m AND NOT bmask)]"
    by (simp add: mi_os_reset_def mi_os_decommit_def)
  then show ?thesis using sz' by blast
qed

lemmas const_simps = const_defs mi_region_block_count_def mi_region_block_mask_def shiftl_c_def
  mi_align_up_def mi_good_commit_size_def

lemmas atomic_simps = mi_atomic_compare_exchange_def mi_atomic_compare_exchange_ptr_def
  others_write_map_def others_write_start_def mi_os_alloc_aligned_def mi_os_free_def
  mi_os_commit_def mi_os_decommit_def mi_os_reset_def
  others_increment_def mi_atomic_read_count_def mi_atomic_increment_def

lemma demo_free_one:
  "mi_mem_free (demo_os r ok) 0x40400000 1 0 (demo_state 1 0x40400000) = 
     Some ((demo_state 0 0x40400000)\<lparr>trace := [Os_decommit 0x40400000 4096, Map_write 0 0]\<rparr>)"
  by (simp add: mi_mem_free_def demo_os_def demo_state_def const_simps atomic_simps unclaim.simps Let_def fun_eq_iff)


theorem free_decommits_before_unclaim_witness:
  "(0::size_t) \<noteq> SIZE_MAX \<and>
   mi_mem_free (demo_os 0 True) 0x40400000 1 0 (demo_state 1 0x40400000) =
     Some ((demo_state 0 0x40400000)\<lparr>trace := [Os_decommit 0x40400000 4096, Map_write 0 0]\<rparr>) \<and>
   mi_align_up 1 (os_page_size (demo_os 0 True)) = Some 4096 \<and>
   trace ((demo_state 0 0x40400000)\<lparr>trace := [Os_decommit 0x40400000 4096, Map_write 0 0]\<rparr>) =
     trace (demo_state 1 0x40400000) @ [Os_decommit 0x40400000 4096, Map_write 0 0]"
proof -
  have h1: "(0::size_t) \<noteq> SIZE_MAX" by (simp add: const_defs)
  have h2: "mi_mem_free (demo_os 0 True) 0x40400000 1 0 (demo_state 1 0x40400000) =
     Some ((demo_state 0 0x40400000)\<lparr>trace := [Os_decommit 0x40400000 4096, Map_write 0 0]\<rparr>)"
    by (rule demo_free_one)
  from free_decommits_before_unclaim [OF h1 h2] h1 h2 show ?thesis
    by (simp add: demo_os_def demo_state_def mi_align_up_def)
qed

text \<open>
  C5 (the code departs from the claim). The source asserts that the bits of the mask
  are claimed and that \<^verbatim>\<open>start\<close> is not \<^verbatim>\<open>NULL\<close>, but unlike the checks of \<open>idx\<close> and of the
  pointer it has no \<^verbatim>\<open>if (...) return\<close> for them. Region 0 has only block 1 claimed (map
  2): a free of two blocks at bit 0 decommits both blocks and clears the map, block 1
  with them. And with \<^verbatim>\<open>start\<close> still \<^verbatim>\<open>NULL\<close>, a free of the pointer \<open>1 * MI_SEGMENT_SIZE\<close>
  with id 1 passes the pointer check and decommits.
\<close>

theorem free_unclaimed_bits_is_released:
  "mi_mem_free (demo_os 0 True) 0x40400000 0x800000 0 (demo_state 2 0x40400000) =
     Some ((demo_state 0 0x40400000)
             \<lparr>trace := [Os_decommit 0x40400000 0x800000, Map_write 0 0]\<rparr>) \<and>
   mi_mem_free (demo_os 0 True) 0x400000 1 1 (demo_state 0 0) =
     Some ((demo_state 0 0)\<lparr>trace := [Os_decommit 0x400000 4096, Map_write 0 0]\<rparr>)"
  by (simp add: mi_mem_free_def demo_os_def demo_state_def const_simps atomic_simps
        unclaim.simps Let_def fun_eq_iff)

theorem free_unclaimed_bits_is_released_witness:
  "(\<exists>s'. mi_mem_free (demo_os 0 True) 0x40400000 0x800000 0 (demo_state 2 0x40400000) = Some s' \<and>
         map_word (regions (demo_state 2 0x40400000) 0) AND 3 \<noteq> 3 \<and>
         map_word (regions s' 0) = 0 \<and>
         trace s' = [Os_decommit 0x40400000 0x800000, Map_write 0 0]) \<and>
   (\<exists>s'. mi_mem_free (demo_os 0 True) 0x400000 1 1 (demo_state 0 0) = Some s' \<and>
         start (regions (demo_state 0 0) 0) = 0 \<and>
         trace s' = [Os_decommit 0x400000 4096, Map_write 0 0])"
  using free_unclaimed_bits_is_released by (simp add: demo_state_def)

subsection \<open>The direct OS allocation\<close>

text \<open>
  C7. A request larger than \<^verbatim>\<open>MI_REGION_MAX_ALLOC_SIZE\<close>, or with an alignment above
  \<^verbatim>\<open>MI_SEGMENT_ALIGN\<close>, goes to \<^verbatim>\<open>_mi_os_alloc_aligned\<close> with the size rounded by
  \<^verbatim>\<open>mi_good_commit_size\<close> and \<^verbatim>\<open>commit = true\<close>; the result is the OS's pointer with the id
  \<^verbatim>\<open>SIZE_MAX\<close>, and the state differs only by that call in the trace: no region and no
  counter changes. (The large page size is not 0, so that rounding to it is defined.)
\<close>

theorem alloc_huge_bypasses_regions:
  assumes "sz > MI_REGION_MAX_ALLOC_SIZE \<or> alignment > MI_SEGMENT_ALIGN"
    and "os_large_page_size e \<noteq> 0"
  shows "\<exists>csz. mi_good_commit_size e sz = Some csz \<and>
           mi_mem_alloc_aligned e sz alignment commit s =
             Some (os_alloc_result e (trace s) csz alignment True, SIZE_MAX,
                   s\<lparr>trace := trace s @
                      [Os_alloc_aligned csz alignment True
                         (os_alloc_result e (trace s) csz alignment True)]\<rparr>)"
proof -
  have "\<exists>csz. mi_good_commit_size e sz = Some csz"
    using assms(2) by (simp add: mi_good_commit_size_def mi_align_up_def Let_def)
  then obtain csz where c: "mi_good_commit_size e sz = Some csz" ..
  then show ?thesis using assms(1)
    by (auto simp: mi_mem_alloc_aligned_def mi_os_alloc_aligned_def Let_def)
qed

theorem alloc_huge_bypasses_regions_witness:
  "(0x8000000::size_t) > MI_REGION_MAX_ALLOC_SIZE \<and>
   os_large_page_size (demo_os 0x40400000 True) \<noteq> 0 \<and>
   mi_good_commit_size (demo_os 0x40400000 True) 0x8000000 = Some 0x8000000 \<and>
   mi_mem_alloc_aligned (demo_os 0x40400000 True) 0x8000000 0 False (demo_state 1 0x80000000) =
     Some (0x40400000, SIZE_MAX,
           (demo_state 1 0x80000000)\<lparr>trace := [Os_alloc_aligned 0x8000000 0 True 0x40400000]\<rparr>)"
proof -
  have h1: "(0x8000000::size_t) > MI_REGION_MAX_ALLOC_SIZE \<or> (0::size_t) > MI_SEGMENT_ALIGN"
    by (simp add: const_defs)
  have h2: "os_large_page_size (demo_os 0x40400000 True) \<noteq> 0" by (simp add: demo_os_def)
  from alloc_huge_bypasses_regions [OF h1 h2, of False "demo_state 1 0x80000000"] h2
  show ?thesis
    by (auto simp: demo_os_def demo_state_def const_simps Let_def)
qed

subsection \<open>The first fit\<close>

lemma word_zero_iff_no_bits: "(w::uintptr) = 0 \<longleftrightarrow> (\<forall>j. \<not> bit w j)"
proof
  assume "w = 0"
  then show "\<forall>j. \<not> bit w j" by simp
next
  assume "\<forall>j. \<not> bit w j"
  then show "w = 0" by (intro bit_word_eqI) simp
qed

lemma free_run_bits:
  "free_run mp b i \<longleftrightarrow> i + b \<le> 64 \<and> (\<forall>j. i \<le> j \<and> j < i + b \<longrightarrow> \<not> bit mp j)"
proof (cases "i + b \<le> 64")
  case True
  have "mp AND push_bit i (mask b) = 0 \<longleftrightarrow> (\<forall>j. \<not> bit (mp AND push_bit i (mask b)) j)"
    by (rule word_zero_iff_no_bits)
  also have "\<dots> \<longleftrightarrow> (\<forall>j. i \<le> j \<and> j < i + b \<longrightarrow> \<not> bit mp j)"
    using True by (auto simp: bit_and_iff bit_block_mask)
  finally show ?thesis using True by (simp add: free_run_def)
next
  case False
  then show ?thesis by (simp add: free_run_def)
qed

lemma set_bit_blocks_run:
  assumes "bit mp q" "i \<le> q" "q < i + b"
  shows "\<not> free_run mp b i"
  using assms by (auto simp: free_run_bits)

lemma unat_add_small:
  assumes "unat (x::size_t) + n < 2 ^ 64"
  shows "unat (x + word_of_nat n) = unat x + n"
proof -
  have n: "n < 2 ^ 64" using assms by simp
  then have u: "unat (word_of_nat n :: size_t) = n" by (simp add: unat_of_nat take_bit_nat_eq_self)
  then have "unat x + unat (word_of_nat n :: size_t) < 2 ^ LENGTH(64)" using assms by simp
  then have "unat (x + word_of_nat n) = unat x + unat (word_of_nat n :: size_t)"
    by (simp only: unat_add_lem)
  then show ?thesis using u by simp
qed


lemma unat_bitidx_max:
  assumes "unat blocks \<le> 64"
  shows "unat (MI_REGION_MAP_BITS - blocks) = 64 - unat blocks"
proof -
  have "blocks \<le> 64" using assms by (simp add: word_le_nat_alt)
  then show ?thesis by (simp add: const_defs unat_64_minus)
qed

lemma find_range_correct:
  assumes "1 \<le> unat blocks" and "unat blocks \<le> 64"
    and "unat bitidx \<le> 64 - unat blocks"
    and "m = drop_bit (unat bitidx) mp"
    and "\<forall>i < unat bitidx. \<not> free_run mp (unat blocks) i"
  shows "(unat (find_range m bitidx blocks) \<le> 64 - unat blocks \<longrightarrow>
           free_run mp (unat blocks) (unat (find_range m bitidx blocks))) \<and>
         (\<forall>i < unat (find_range m bitidx blocks). \<not> free_run mp (unat blocks) i)"
  using assms
proof (induction m bitidx blocks rule: find_range.induct)
  case (1 m bitidx blocks)
  let ?b = "unat bitidx" and ?B = "unat blocks"
  note B1 = "1.prems"(1) and B64 = "1.prems"(2) and ble = "1.prems"(3)
    and m = "1.prems"(4) and below = "1.prems"(5)
  obtain k1 where k1: "skip_ones m bitidx = (drop_bit k1 m, bitidx + word_of_nat k1)"
    "\<forall>j<k1. bit m j" "\<not> bit m k1"
    using skip_ones_shape by blast
  define m1 where "m1 = drop_bit k1 m"
  define bitidx1 where "bitidx1 = bitidx + word_of_nat k1"
  obtain k2 where k2:
    "count_zeros (drop_bit 1 m1) 1 blocks = (drop_bit k2 (drop_bit 1 m1), 1 + word_of_nat k2)"
    "\<forall>j<k2. \<not> bit (drop_bit 1 m1) j"
    "k2 = 0 \<or> unat (1::size_t) + k2 \<le> ?B"
    "unat (1::size_t) + k2 < ?B \<longrightarrow> bit (drop_bit 1 m1) k2"
    using count_zeros_shape by blast
  define m2 where "m2 = drop_bit k2 (drop_bit 1 m1)"
  define zeros where "zeros = (1::size_t) + word_of_nat k2"
  have bitm: "bit m j = bit mp (?b + j)" for j by (simp add: m bit_drop_bit_eq)
  have bitm1: "bit (drop_bit 1 m1) j = bit mp (?b + k1 + 1 + j)" for j
    by (simp add: m1_def m bit_drop_bit_eq ac_simps)
  have ones: "\<forall>j<k1. bit mp (?b + j)" using k1(2) bitm by simp
  have k1le: "?b + k1 \<le> 64"
  proof (cases k1)
    case 0
    then show ?thesis using ble by simp
  next
    case (Suc n)
    then have "bit mp (?b + n)" using ones by simp
    then have "?b + n < 64" using bit_imp_le_length[of mp "?b + n"] by simp
    then show ?thesis using Suc by simp
  qed
  have ub1: "unat bitidx1 = ?b + k1"
    unfolding bitidx1_def using k1le by (intro unat_add_small) simp
  have z0: "\<not> bit mp (?b + k1)" using k1(3) bitm by simp
  have zs: "\<forall>j<k2. \<not> bit mp (?b + k1 + 1 + j)" using k2(2) bitm1 by simp
  have k2B: "1 + k2 \<le> ?B" using k2(3) B1 by auto
  have uz: "unat zeros = 1 + k2"
  proof -
    have "unat ((1::size_t) + word_of_nat k2) = unat (1::size_t) + k2"
      using k2B B64 by (intro unat_add_small) simp
    then show ?thesis by (simp add: zeros_def)
  qed
  have below1: "\<forall>i < ?b + k1. \<not> free_run mp ?B i"
  proof (intro allI impI)
    fix i assume i: "i < ?b + k1"
    show "\<not> free_run mp ?B i"
    proof (cases "i < ?b")
      case True
      then show ?thesis using below by simp
    next
      case False
      then have "i = ?b + (i - ?b)" "i - ?b < k1" using i by arith+
      then have "bit mp i" using ones by metis
      then show ?thesis using B1 by (intro set_bit_blocks_run[of mp i]) auto
    qed
  qed
  have s1: "skip_ones m bitidx = (m1, bitidx1)" by (simp only: k1(1) m1_def bitidx1_def)
  have c1: "count_zeros (drop_bit 1 m1) 1 blocks = (m2, zeros)"
    by (simp only: k2(1) m2_def zeros_def)
  have unfold: "find_range m bitidx blocks =
      (if zeros = blocks then bitidx1
       else if bitidx1 + zeros \<le> MI_REGION_MAP_BITS - blocks
            then find_range m2 (bitidx1 + zeros) blocks else bitidx1 + zeros)"
    by (subst find_range.simps) (simp only: s1 c1 Let_def prod.case)
  show ?case
  proof (cases "zeros = blocks")
    case True
    then have r: "find_range m bitidx blocks = bitidx1" using unfold by simp
    have kB: "1 + k2 = ?B" using True uz by simp
    have "free_run mp ?B (?b + k1)" if "?b + k1 \<le> 64 - ?B"
      unfolding free_run_bits
    proof (intro conjI allI impI)
      show "?b + k1 + ?B \<le> 64" using that B64 by simp
      fix j assume j: "?b + k1 \<le> j \<and> j < ?b + k1 + ?B"
      show "\<not> bit mp j"
      proof (cases "j = ?b + k1")
        case True
        then show ?thesis using z0 by simp
      next
        case False
        then have "j = ?b + k1 + 1 + (j - (?b + k1 + 1))" "j - (?b + k1 + 1) < k2"
          using j kB by arith+
        then show ?thesis using zs by metis
      qed
    qed
    then show ?thesis using r ub1 below1 by simp
  next
    case False
    then have "1 + k2 \<noteq> ?B" using uz by (metis word_unat_eq_iff)
    then have lt: "1 + k2 < ?B" using k2B by simp
    let ?b2 = "?b + k1 + 1 + k2"
    have hit: "bit mp ?b2" using k2(4) lt bitm1 by simp
    have ub2: "unat (bitidx1 + zeros) = ?b2"
    proof -
      have "unat (bitidx1 + word_of_nat (1 + k2)) = unat bitidx1 + (1 + k2)"
        using ub1 k1le k2B B64 by (intro unat_add_small) simp
      then show ?thesis using ub1 by (simp add: zeros_def)
    qed
    have below2: "\<forall>i < ?b2. \<not> free_run mp ?B i"
    proof (intro allI impI)
      fix i assume i: "i < ?b2"
      show "\<not> free_run mp ?B i"
      proof (cases "i < ?b + k1")
        case True
        then show ?thesis using below1 by simp
      next
        case False
        then show ?thesis using hit i lt by (intro set_bit_blocks_run[of mp ?b2]) auto
      qed
    qed
    show ?thesis
    proof (cases "bitidx1 + zeros \<le> MI_REGION_MAP_BITS - blocks")
      case True
      then have b2le: "?b2 \<le> 64 - ?B"
        using ub2 unat_bitidx_max[OF B64] by (simp add: word_le_nat_alt)
      have r: "find_range m bitidx blocks = find_range m2 (bitidx1 + zeros) blocks"
        using unfold False True by simp
      have m2: "m2 = drop_bit (unat (bitidx1 + zeros)) mp"
        unfolding ub2 by (simp add: m2_def m1_def m ac_simps)
      have "(unat (find_range m2 (bitidx1 + zeros) blocks) \<le> 64 - ?B \<longrightarrow>
               free_run mp ?B (unat (find_range m2 (bitidx1 + zeros) blocks))) \<and>
            (\<forall>i < unat (find_range m2 (bitidx1 + zeros) blocks). \<not> free_run mp ?B i)"
      proof (rule "1.IH"[of "skip_ones m bitidx" m1 bitidx1 "count_zeros (drop_bit 1 m1) 1 blocks" m2 zeros "bitidx1 + zeros"])
        show "(m1, bitidx1) = skip_ones m bitidx" by (rule s1[symmetric])
        show "(m2, zeros) = count_zeros (drop_bit 1 m1) 1 blocks" by (rule c1[symmetric])
        show "zeros \<noteq> blocks" by (rule False)
        show "bitidx1 + zeros \<le> MI_REGION_MAP_BITS - blocks" by (rule True)
        show "unat (bitidx1 + zeros) \<le> 64 - ?B" using b2le ub2 by simp
        show "m2 = drop_bit (unat (bitidx1 + zeros)) mp" by (rule m2)
        show "\<forall>i<unat (bitidx1 + zeros). \<not> free_run mp ?B i" using below2 ub2 by simp
      qed (use B1 B64 in simp_all)
      then show ?thesis using r by simp
    next
      case nle: False
      then have r: "find_range m bitidx blocks = bitidx1 + zeros" using unfold False by simp
      have "\<not> ?b2 \<le> 64 - ?B"
        using nle ub2 unat_bitidx_max[OF B64] by (simp add: word_le_nat_alt)
      then show ?thesis using r ub2 below2 by simp
    qed
  qed
qed

subsection \<open>The invariant and the frame of the loops\<close>

lemma started_finite: "finite (started s)"
  by (simp add: started_def)

lemma card_started_le: "card (started s) \<le> unat MI_REGION_MAX"
proof -
  have "started s \<subseteq> {..<unat MI_REGION_MAX}" by (auto simp: started_def)
  then have "card (started s) \<le> card {..<unat MI_REGION_MAX}" by (intro card_mono) auto
  then show ?thesis by simp
qed

lemma card_started_publish:
  assumes z: "start (regions s i) = 0" and i: "i < unat MI_REGION_MAX" and q0: "q \<noteq> 0"
    and rg: "regions s' = (regions s)(i := (regions s i)\<lparr>start := q\<rparr>)"
  shows "card (started s') = Suc (card (started s))"
proof -
  have st: "started s' = insert i (started s)" using i q0 rg by (auto simp: started_def)
  have ni: "i \<notin> started s" using z by (simp add: started_def)
  show ?thesis unfolding st using ni started_finite by simp
qed

lemma publish_start_own:
  assumes ok: "state_ok s" and z: "start (regions s i) = 0" and i: "i < unat MI_REGION_MAX"
    and q: "region_ptr_ok q" and os: "set qs \<subseteq> set (others_start s)"
  shows "publication_lags (s\<lparr>regions := (regions s)(i := (regions s i)\<lparr>start := q\<rparr>),
                            others_start := qs\<rparr>)"
proof -
  let ?s' = "s\<lparr>regions := (regions s)(i := (regions s i)\<lparr>start := q\<rparr>), others_start := qs\<rparr>"
  have q0: "q \<noteq> 0" using q by (simp add: region_ptr_ok_def)
  have c: "card (started ?s') = Suc (card (started s))"
    by (rule card_started_publish[OF z i q0]) simp
  show ?thesis using ok c q os by (auto simp: state_ok_def publication_lags_def)
qed

lemma publish_start_other:
  assumes ok: "state_ok s" and z: "start (regions s i) = 0" and i: "i < unat MI_REGION_MAX"
    and q: "region_ptr_ok q" and os: "set qs \<subseteq> set (others_start s)"
  shows "state_ok (s\<lparr>regions := (regions s)(i := (regions s i)\<lparr>start := q\<rparr>),
                    others_pending := others_pending s + 1, others_start := qs\<rparr>)"
proof -
  let ?s' = "s\<lparr>regions := (regions s)(i := (regions s i)\<lparr>start := q\<rparr>),
                others_pending := others_pending s + 1, others_start := qs\<rparr>"
  have q0: "q \<noteq> 0" using q by (simp add: region_ptr_ok_def)
  have c: "card (started ?s') = Suc (card (started s))"
    by (rule card_started_publish[OF z i q0]) simp
  show ?thesis using ok c q os by (auto simp: state_ok_def)
qed

lemma unat_count_add:
  assumes "unat (c::size_t) + n \<le> unat MI_REGION_MAX"
  shows "unat (c + of_nat n) = unat c + n"
proof -
  have n: "n \<le> 1024" using assms by (simp add: const_defs)
  then have "unat (of_nat n :: size_t) = n" by (simp add: unat_of_nat take_bit_nat_eq_self)
  moreover have "unat c + n < 2 ^ 64" using assms by (simp add: const_defs)
  ultimately show ?thesis by (simp add: unat_add_lem[THEN iffD1])
qed

lemma others_increment_frame:
  "regions (others_increment s) = regions s"
  "trace (others_increment s) = trace s"
  "others_map (others_increment s) = others_map s"
  "others_start (others_increment s) = others_start s"
  "region_next_idx (others_increment s) = region_next_idx s"
  by (simp_all add: others_increment_def Let_def split: list.splits)

lemma others_increment_sum:
  assumes "unat (regions_count s) + others_pending s \<le> unat MI_REGION_MAX"
  shows "unat (regions_count (others_increment s)) + others_pending (others_increment s) =
         unat (regions_count s) + others_pending s"
proof (cases "others_count s")
  case Nil
  then show ?thesis by (simp add: others_increment_def)
next
  case (Cons k ks)
  let ?n = "min k (others_pending s)"
  have "unat (regions_count s) + ?n \<le> unat MI_REGION_MAX" using assms by simp
  then have "unat (regions_count s + of_nat ?n) = unat (regions_count s) + ?n"
    by (rule unat_count_add)
  then show ?thesis using Cons by (simp add: others_increment_def Let_def)
qed

lemma others_increment_ok:
  assumes ok: "state_ok s"
  shows "state_ok (others_increment s)"
proof -
  have "unat (regions_count s) + others_pending s \<le> unat MI_REGION_MAX"
    using ok card_started_le[of s] by (simp add: state_ok_def)
  from others_increment_sum[OF this] show ?thesis
    using ok by (simp add: state_ok_def started_def others_increment_frame)
qed

lemma others_increment_lags:
  assumes lag: "publication_lags s"
  shows "publication_lags (others_increment s)"
proof -
  have "unat (regions_count s) + others_pending s \<le> unat MI_REGION_MAX"
    using lag card_started_le[of s] by (simp add: publication_lags_def)
  from others_increment_sum[OF this] show ?thesis
    using lag by (simp add: publication_lags_def started_def others_increment_frame)
qed

lemma publication_lags_count:
  assumes "publication_lags s"
  shows "regions_count s < MI_REGION_MAX"
  using assms card_started_le[of s] by (simp add: publication_lags_def word_less_nat_alt)

lemma increment_ok:
  assumes lag: "publication_lags s"
  shows "state_ok (mi_atomic_increment s)"
proof -
  let ?s1 = "others_increment s"
  have lag1: "publication_lags ?s1" using lag by (rule others_increment_lags)
  have "regions_count ?s1 < MI_REGION_MAX" using lag1 by (rule publication_lags_count)
  then have "regions_count ?s1 < 1024" by (simp add: const_defs)
  then have "unat (regions_count ?s1 + 1) = Suc (unat (regions_count ?s1))" by (rule unat_succ_less)
  then show ?thesis using lag1
    by (simp add: mi_atomic_increment_def Let_def state_ok_def publication_lags_def started_def)
qed

lemma increment_frame:
  "regions (mi_atomic_increment s) = regions s"
  "trace (mi_atomic_increment s) = trace s"
  "others_map (mi_atomic_increment s) = others_map s"
  "others_start (mi_atomic_increment s) = others_start s"
  "region_next_idx (mi_atomic_increment s) = region_next_idx s"
  by (simp_all add: mi_atomic_increment_def Let_def others_increment_frame)

lemma state_ok_frame:
  assumes "state_ok s" "\<forall>j. start (regions s' j) = start (regions s j)"
    "regions_count s' = regions_count s" "set (others_start s') \<subseteq> set (others_start s)"
    "others_pending s' = others_pending s"
  shows "state_ok s'"
  using assms by (auto simp: state_ok_def started_def)

lemma same_but_maps_refl: "same_but_maps s s"
  by (simp add: same_but_maps_def)

lemma same_but_maps_trans: "same_but_maps s s1 \<Longrightarrow> same_but_maps s1 s2 \<Longrightarrow> same_but_maps s s2"
  by (simp add: same_but_maps_def)

lemma compare_exchange_same:
  "mi_atomic_compare_exchange idx exchange compare s = (ok, s') \<Longrightarrow> same_but_maps s s'"
  by (auto simp: mi_atomic_compare_exchange_def others_write_map_def same_but_maps_def Let_def
           split: if_splits list.splits)

lemma unclaim_same: "same_but_maps s (unclaim idx bmask s)"
proof (induction idx bmask s rule: unclaim.induct)
  case (1 idx bmask s)
  obtain ok s' where c: "mi_atomic_compare_exchange idx (map_word (regions s idx) AND NOT bmask)
      (map_word (regions s idx)) s = (ok, s')" by force
  show ?case
  proof (cases ok)
    case True
    then have "unclaim idx bmask s = s'" using c by (subst unclaim.simps) simp
    then show ?thesis using compare_exchange_same[OF c] by simp
  next
    case False
    then have "unclaim idx bmask s = unclaim idx bmask s'" using c by (subst unclaim.simps) simp
    moreover have "same_but_maps s' (unclaim idx bmask s')"
      using "1.IH"[OF refl c[symmetric]] False by simp
    ultimately show ?thesis using compare_exchange_same[OF c] same_but_maps_trans by metis
  qed
qed

lemma claim_loop_same:
  "claim_loop idx blocks bmask bitidx s = Some (r, s') \<Longrightarrow> same_but_maps s s'"
proof (induction idx blocks bmask bitidx s rule: claim_loop.induct)
  case (1 idx blocks bmask bitidx s)
  let ?mp = "map_word (regions s idx)"
  let ?b = "find_range ?mp bitidx blocks"
  show ?case
  proof (cases "?b > MI_REGION_MAP_BITS - blocks")
    case True
    then have "claim_loop idx blocks bmask bitidx s = Some (None, s)"
      by (subst claim_loop.simps) (simp add: Let_def)
    then show ?thesis using "1.prems" by (simp add: same_but_maps_refl)
  next
    case False
    then obtain shifted where sh: "shiftl_c bmask ?b = Some shifted"
      using "1.prems" by (subst (asm) claim_loop.simps) (auto simp: Let_def split: option.splits)
    obtain ok s1 where c: "mi_atomic_compare_exchange idx (?mp OR shifted) ?mp s = (ok, s1)" by force
    show ?thesis
    proof (cases ok)
      case True
      then have "claim_loop idx blocks bmask bitidx s = Some (Some ?b, s1)"
        using False sh c by (subst claim_loop.simps) (simp add: Let_def)
      then show ?thesis using "1.prems" compare_exchange_same[OF c] by simp
    next
      case nok: False
      then have "claim_loop idx blocks bmask bitidx s = claim_loop idx blocks bmask ?b s1"
        using False sh c by (subst claim_loop.simps) (simp add: Let_def)
      then have "same_but_maps s1 s'"
        using "1.IH"[OF refl refl False sh refl c[symmetric]] nok "1.prems" by simp
      then show ?thesis using compare_exchange_same[OF c] same_but_maps_trans by metis
    qed
  qed
qed


lemma compare_exchange_ptr_won:
  assumes "mi_atomic_compare_exchange_ptr i r 0 s = (True, s')"
  shows "start (regions s i) = 0"
  using assms
  by (auto simp: mi_atomic_compare_exchange_ptr_def others_write_start_def Let_def
           split: if_splits list.splits)

lemma compare_exchange_ptr_publishes:
  assumes ok: "state_ok s" and z: "start (regions s i) = 0" and i: "i < unat MI_REGION_MAX"
    and r: "region_ptr_ok r"
    and c: "mi_atomic_compare_exchange_ptr i r 0 s = (won, s')"
  shows "if won then publication_lags s' else state_ok s'"
    and "start (regions s' i) \<noteq> 0"
    and "\<forall>j. map_word (regions s' j) = map_word (regions s j)"
    and "\<forall>j. j \<noteq> i \<longrightarrow> regions s' j = regions s j"
    and "trace s' = trace s" and "others_map s' = others_map s"
    and "region_next_idx s' = region_next_idx s"
proof -
  have r0: "r \<noteq> 0" using r by (simp add: region_ptr_ok_def)
  show "if won then publication_lags s' else state_ok s'"
  proof (cases "others_start s")
    case Nil
    then have w: "won" and s': "s' = s\<lparr>regions := (regions s)(i := (regions s i)\<lparr>start := r\<rparr>)\<rparr>"
      using c z by (auto simp: mi_atomic_compare_exchange_ptr_def others_write_start_def Let_def)
    have "publication_lags (s\<lparr>regions := (regions s)(i := (regions s i)\<lparr>start := r\<rparr>),
                               others_start := others_start s\<rparr>)"
      using ok z i r by (intro publish_start_own) auto
    then show ?thesis using w s' by simp
  next
    case (Cons q qs)
    show ?thesis
    proof (cases "q = 0")
      case True
      then have w: "won"
        and s': "s' = s\<lparr>others_start := qs, regions := (regions s)(i := (regions s i)\<lparr>start := r\<rparr>)\<rparr>"
        using c z Cons by (auto simp: mi_atomic_compare_exchange_ptr_def others_write_start_def Let_def)
      have "publication_lags (s\<lparr>regions := (regions s)(i := (regions s i)\<lparr>start := r\<rparr>),
                                 others_start := qs\<rparr>)"
        using ok z i r Cons by (intro publish_start_own) auto
      then show ?thesis using w s' by (simp add: publication_lags_def started_def)
    next
      case False
      then have w: "\<not> won"
        and s': "s' = s\<lparr>regions := (regions s)(i := (regions s i)\<lparr>start := q\<rparr>),
                  others_pending := others_pending s + 1, others_start := qs\<rparr>"
        using c z Cons by (auto simp: mi_atomic_compare_exchange_ptr_def others_write_start_def Let_def)
      have "region_ptr_ok q" using ok Cons False by (auto simp: state_ok_def)
      then have "state_ok (s\<lparr>regions := (regions s)(i := (regions s i)\<lparr>start := q\<rparr>),
                     others_pending := others_pending s + 1, others_start := qs\<rparr>)"
        using ok z i Cons by (intro publish_start_other) auto
      then show ?thesis using w s' by simp
    qed
  qed
  show "start (regions s' i) \<noteq> 0"
    using c z r0
    by (auto simp: mi_atomic_compare_exchange_ptr_def others_write_start_def Let_def
             split: if_splits list.splits)
  show "\<forall>j. map_word (regions s' j) = map_word (regions s j)"
    using c
    by (auto simp: mi_atomic_compare_exchange_ptr_def others_write_start_def Let_def
             split: if_splits list.splits)
  show "\<forall>j. j \<noteq> i \<longrightarrow> regions s' j = regions s j"
    using c
    by (auto simp: mi_atomic_compare_exchange_ptr_def others_write_start_def Let_def
             split: if_splits list.splits)
  show "trace s' = trace s" "others_map s' = others_map s" "region_next_idx s' = region_next_idx s"
    using c
    by (auto simp: mi_atomic_compare_exchange_ptr_def others_write_start_def Let_def
             split: if_splits list.splits)
qed


lemma good_commit_size_defined:
  "os_large_page_size e \<noteq> 0 \<Longrightarrow> \<exists>csz. mi_good_commit_size e sz = Some csz"
  by (simp add: mi_good_commit_size_def mi_align_up_def Let_def)

lemma commit_blocks_unfold:
  "mi_region_commit_blocks e idx bitidx blocks sz commit p memid s =
     (case mi_region_block_mask blocks bitidx of
        None \<Rightarrow> None
      | Some bmask \<Rightarrow>
          if start (regions s (unat idx)) = 0 then
            (case mi_os_alloc_aligned e MI_REGION_SIZE MI_SEGMENT_ALIGN (eager_region_commit e) s of
               (r, sa) \<Rightarrow>
                 if r = 0 then Some (False, p, memid, unclaim (unat idx) bmask sa)
                 else (case mi_atomic_compare_exchange_ptr (unat idx) r 0 sa of
                         (won, sb) \<Rightarrow>
                           if won
                           then commit_rest e idx bitidx sz commit r (mi_atomic_increment sb)
                           else commit_rest e idx bitidx sz commit
                                  (start (regions (mi_os_free r MI_REGION_SIZE sb) (unat idx)))
                                  (mi_os_free r MI_REGION_SIZE sb)))
          else commit_rest e idx bitidx sz commit (start (regions s (unat idx))) s)"
  by (simp add: mi_region_commit_blocks_def commit_rest_def Let_def
           split: option.splits prod.splits)

lemma commit_rest_spec:
  assumes lp: "os_large_page_size e \<noteq> 0"
  shows "\<exists>s' evs. commit_rest e idx bitidx sz commit start1 s1 =
             Some (True, start1 + bitidx * MI_SEGMENT_SIZE, idx * MI_REGION_MAP_BITS + bitidx, s') \<and>
           regions s' = regions s1 \<and> regions_count s' = regions_count s1 \<and>
           others_map s' = others_map s1 \<and> others_start s' = others_start s1 \<and>
           trace s' = trace s1 @ evs \<and> benign evs (start1 + bitidx * MI_SEGMENT_SIZE) \<and>
           others_pending s' = others_pending s1 \<and> others_count s' = others_count s1"
proof -
  obtain csz where c: "mi_good_commit_size e sz = Some csz"
    using good_commit_size_defined[OF lp] by blast
  show ?thesis
  proof (cases "commit \<and> \<not> eager_region_commit e")
    case True
    then show ?thesis using c
      by (simp add: commit_rest_def mi_os_commit_def Let_def benign_def)
  next
    case False
    then have "(if commit \<and> \<not> eager_region_commit e
               then (case mi_good_commit_size e sz of
                       None \<Rightarrow> None
                     | Some csz \<Rightarrow> Some (snd (mi_os_commit e (start1 + bitidx * MI_SEGMENT_SIZE) csz s1)))
               else Some s1) = Some s1"
      by (rule if_not_P)
    then show ?thesis
      by (simp add: commit_rest_def Let_def benign_def)
  qed
qed

lemma benign_append:
  assumes "\<forall>ev \<in> set evs1. (\<forall>c. ev \<noteq> Os_alloc_aligned MI_REGION_SIZE MI_SEGMENT_ALIGN c 0) \<and>
                           (\<forall>q csz k. ev \<noteq> Os_commit q csz k)"
    and "benign evs q"
  shows "benign (evs1 @ evs) q"
  using assms unfolding benign_def by (metis Un_iff set_append)

lemma commit_blocks_spec:
  assumes ok: "state_ok s" and os: "os_ok e" and i: "unat idx < unat MI_REGION_MAX"
    and bm: "mi_region_block_mask blocks bitidx = Some bmask"
  shows "\<exists>okay p' memid' s'.
           mi_region_commit_blocks e idx bitidx blocks sz commit p memid s =
             Some (okay, p', memid', s') \<and> state_ok s' \<and>
           (if okay then
              p' = start (regions s' (unat idx)) + bitidx * MI_SEGMENT_SIZE \<and>
              start (regions s' (unat idx)) \<noteq> 0 \<and>
              memid' = idx * MI_REGION_MAP_BITS + bitidx \<and>
              (\<forall>j. map_word (regions s' j) = map_word (regions s j)) \<and>
              (\<forall>j. j \<noteq> unat idx \<longrightarrow> regions s' j = regions s j) \<and>
              others_map s' = others_map s \<and>
              (\<exists>evs. trace s' = trace s @ evs \<and> benign evs p')
            else
              p' = p \<and> memid' = memid \<and>
              s' = unclaim (unat idx) bmask
                     (s\<lparr>trace := trace s @
                        [Os_alloc_aligned MI_REGION_SIZE MI_SEGMENT_ALIGN (eager_region_commit e) 0]\<rparr>))"
proof -
  have lp: "os_large_page_size e \<noteq> 0" using os by (simp add: os_ok_def)
  let ?i = "unat idx"
  show ?thesis
  proof (cases "start (regions s ?i) = 0")
    case False
    obtain s' evs where t:
      "commit_rest e idx bitidx sz commit (start (regions s ?i)) s =
         Some (True, start (regions s ?i) + bitidx * MI_SEGMENT_SIZE,
               idx * MI_REGION_MAP_BITS + bitidx, s')"
      "regions s' = regions s" "regions_count s' = regions_count s"
      "others_map s' = others_map s" "others_start s' = others_start s"
      "trace s' = trace s @ evs" "benign evs (start (regions s ?i) + bitidx * MI_SEGMENT_SIZE)"
      "others_pending s' = others_pending s" "others_count s' = others_count s"
      using commit_rest_spec[OF lp] by blast
    have "state_ok s'"
      by (rule state_ok_frame[OF ok]) (simp_all add: t(2,3,5,8))
    then show ?thesis using False bm t
      by (simp add: commit_blocks_unfold) blast
  next
    case True
    let ?r = "os_alloc_result e (trace s) MI_REGION_SIZE MI_SEGMENT_ALIGN (eager_region_commit e)"
    let ?ev = "Os_alloc_aligned MI_REGION_SIZE MI_SEGMENT_ALIGN (eager_region_commit e) ?r"
    let ?sa = "s\<lparr>trace := trace s @ [?ev]\<rparr>"
    have al: "mi_os_alloc_aligned e MI_REGION_SIZE MI_SEGMENT_ALIGN (eager_region_commit e) s = (?r, ?sa)"
      by (simp add: mi_os_alloc_aligned_def Let_def)
    have oka: "state_ok ?sa" by (rule state_ok_frame[OF ok]) simp_all
    show ?thesis
    proof (cases "?r = 0")
      case r0: True
      have "state_ok (unclaim ?i bmask ?sa)"
        using unclaim_same[of ?sa ?i bmask]
        by (intro state_ok_frame[OF oka]) (simp_all add: same_but_maps_def)
      then show ?thesis using True r0 bm al
        by (simp add: commit_blocks_unfold) blast
    next
      case rn: False
      then have rok: "region_ptr_ok ?r" using os by (auto simp: os_ok_def)
      obtain won sb where c: "mi_atomic_compare_exchange_ptr ?i ?r 0 ?sa = (won, sb)" by force
      have za: "start (regions ?sa ?i) = 0" using True by simp
      note pub = compare_exchange_ptr_publishes[OF oka za i rok c]
      define s1 where "s1 = (if won then mi_atomic_increment sb
                             else mi_os_free ?r MI_REGION_SIZE sb)"
      define st1 where "st1 = (if won then ?r else start (regions (mi_os_free ?r MI_REGION_SIZE sb) ?i))"
      have won_st: "won \<Longrightarrow> start (regions sb ?i) = ?r"
        using c za
        by (auto simp: mi_atomic_compare_exchange_ptr_def others_write_start_def Let_def
                 split: if_splits list.splits)
      have st1: "st1 = start (regions sb ?i)"
        using won_st by (simp add: st1_def mi_os_free_def)
      have ok1: "state_ok s1"
      proof (cases won)
        case True
        then show ?thesis using pub(1) increment_ok by (simp add: s1_def)
      next
        case False
        then have sbok: "state_ok sb" using pub(1) by simp
        show ?thesis using False
          by (intro state_ok_frame[OF sbok]) (simp_all add: s1_def mi_os_free_def)
      qed
      have reg1: "regions s1 = regions sb" "others_map s1 = others_map s"
        using pub by (auto simp: s1_def mi_os_free_def increment_frame)
      define evs1 where "evs1 = (if won then [?ev] else [?ev, Os_free ?r MI_REGION_SIZE])"
      have tr1: "trace s1 = trace s @ evs1"
        "\<forall>ev \<in> set evs1. (\<forall>c. ev \<noteq> Os_alloc_aligned MI_REGION_SIZE MI_SEGMENT_ALIGN c 0) \<and>
                           (\<forall>q csz k. ev \<noteq> Os_commit q csz k)"
        using pub(5) rn by (simp_all add: s1_def evs1_def mi_os_free_def increment_frame)
      obtain s' evs where t:
        "commit_rest e idx bitidx sz commit st1 s1 =
           Some (True, st1 + bitidx * MI_SEGMENT_SIZE, idx * MI_REGION_MAP_BITS + bitidx, s')"
        "regions s' = regions s1" "regions_count s' = regions_count s1"
        "others_map s' = others_map s1" "others_start s' = others_start s1"
        "trace s' = trace s1 @ evs" "benign evs (st1 + bitidx * MI_SEGMENT_SIZE)"
        "others_pending s' = others_pending s1" "others_count s' = others_count s1"
        using commit_rest_spec[OF lp] by blast
      have ok2: "state_ok s'"
        by (rule state_ok_frame[OF ok1]) (simp_all add: t(2,3,5,8))
      have ben: "benign (evs1 @ evs) (st1 + bitidx * MI_SEGMENT_SIZE)"
        using tr1(2) t(7) by (rule benign_append)
      have res: "mi_region_commit_blocks e idx bitidx blocks sz commit p memid s =
          Some (True, st1 + bitidx * MI_SEGMENT_SIZE, idx * MI_REGION_MAP_BITS + bitidx, s')"
        using True rn bm al c t(1)
        by (cases won) (simp_all add: commit_blocks_unfold s1_def st1_def)
      have tr: "trace s' = trace s @ (evs1 @ evs)" using t(6) tr1(1) by simp
      have "start (regions s' ?i) = st1" using t(2) reg1(1) st1 by simp
      moreover have "st1 \<noteq> 0" using st1 pub(2) by simp
      moreover have "\<forall>j. map_word (regions s' j) = map_word (regions s j)"
        using t(2) reg1(1) pub(3) by simp
      moreover have "\<forall>j. j \<noteq> ?i \<longrightarrow> regions s' j = regions s j"
        using t(2) reg1(1) pub(4) by simp
      moreover have "others_map s' = others_map s" using t(4) reg1(2) by simp
      ultimately show ?thesis
        using res ok2 tr ben by (simp del: append_assoc) blast
    qed
  qed
qed

subsection \<open>A quiet environment\<close>

lemma compare_exchange_quiet:
  assumes "others_map s = []"
  shows "mi_atomic_compare_exchange idx exchange (map_word (regions s idx)) s =
     (True, s\<lparr>regions := (regions s)(idx := (regions s idx)\<lparr>map_word := exchange\<rparr>),
              trace := trace s @ [Map_write idx exchange]\<rparr>)"
  using assms by (simp add: mi_atomic_compare_exchange_def others_write_map_def)

lemma unclaim_quiet:
  assumes "others_map s = []"
  shows "unclaim idx bmask s =
     s\<lparr>regions := (regions s)(idx := (regions s idx)\<lparr>map_word := map_word (regions s idx) AND NOT bmask\<rparr>),
       trace := trace s @ [Map_write idx (map_word (regions s idx) AND NOT bmask)]\<rparr>"
  by (subst unclaim.simps) (simp add: compare_exchange_quiet[OF assms] Let_def)

lemma claim_loop_quiet:
  assumes q: "others_map s = []" and B: "1 \<le> unat blocks" "unat blocks \<le> 64"
  shows "claim_loop idx blocks bmask 0 s =
     (let mp = map_word (regions s idx); r = find_range mp 0 blocks
      in if r > MI_REGION_MAP_BITS - blocks then Some (None, s)
         else Some (Some r,
                s\<lparr>regions := (regions s)(idx := (regions s idx)\<lparr>map_word := mp OR push_bit (unat r) bmask\<rparr>),
                  trace := trace s @ [Map_write idx (mp OR push_bit (unat r) bmask)]\<rparr>))"
proof -
  let ?mp = "map_word (regions s idx)"
  let ?r = "find_range ?mp 0 blocks"
  show ?thesis
  proof (cases "?r > MI_REGION_MAP_BITS - blocks")
    case True
    then show ?thesis by (subst claim_loop.simps) (simp add: Let_def)
  next
    case False
    then have "unat ?r \<le> 64 - unat blocks"
      using unat_bitidx_max[OF B(2)] by (simp add: word_le_nat_alt not_less)
    then have "unat ?r < 64" using B(1) by simp
    then have "?r < 64" by (simp add: word_less_nat_alt)
    then have sh: "shiftl_c bmask ?r = Some (push_bit (unat ?r) bmask)" by (simp add: shiftl_c_def)
    show ?thesis using False sh
      by (subst claim_loop.simps) (simp add: Let_def compare_exchange_quiet[OF q])
  qed
qed

lemma find_range_first_fit:
  assumes "1 \<le> unat blocks" and "unat blocks \<le> 64"
  shows "(find_range mp 0 blocks \<le> MI_REGION_MAP_BITS - blocks \<longrightarrow>
            free_run mp (unat blocks) (unat (find_range mp 0 blocks)) \<and>
            (\<forall>i < unat (find_range mp 0 blocks). \<not> free_run mp (unat blocks) i)) \<and>
         (find_range mp 0 blocks > MI_REGION_MAP_BITS - blocks \<longrightarrow>
            (\<forall>i. \<not> free_run mp (unat blocks) i))"
proof -
  have c: "(unat (find_range mp 0 blocks) \<le> 64 - unat blocks \<longrightarrow>
           free_run mp (unat blocks) (unat (find_range mp 0 blocks))) \<and>
         (\<forall>i < unat (find_range mp 0 blocks). \<not> free_run mp (unat blocks) i)"
    using assms by (intro find_range_correct) simp_all
  have le: "find_range mp 0 blocks \<le> MI_REGION_MAP_BITS - blocks \<longleftrightarrow>
            unat (find_range mp 0 blocks) \<le> 64 - unat blocks"
    using unat_bitidx_max[OF assms(2)] by (simp add: word_le_nat_alt)
  have "\<not> free_run mp (unat blocks) i" if "\<not> unat (find_range mp 0 blocks) \<le> 64 - unat blocks" for i
  proof (cases "i < unat (find_range mp 0 blocks)")
    case True
    then show ?thesis using c by simp
  next
    case False
    then have "\<not> i + unat blocks \<le> 64" using that by arith
    then show ?thesis by (simp add: free_run_def)
  qed
  then show ?thesis using c le by (auto simp: not_le[symmetric])
qed

lemma block_ptr_nonzero:
  assumes "region_ptr_ok st" and "unat bitidx < 64"
  shows "st + bitidx * MI_SEGMENT_SIZE \<noteq> 0"
proof -
  have m: "unat (bitidx * MI_SEGMENT_SIZE) = unat bitidx * 4194304"
    using assms(2) by (simp add: const_defs unat_word_ariths)
  have "unat st + unat (bitidx * MI_SEGMENT_SIZE) < 2 ^ LENGTH(64)"
    using assms m by (simp add: region_ptr_ok_def const_defs)
  then have "unat (st + bitidx * MI_SEGMENT_SIZE) = unat st + unat (bitidx * MI_SEGMENT_SIZE)"
    by (simp only: unat_add_lem)
  moreover have "0 < unat st" using assms(1) by (simp add: region_ptr_ok_def unat_gt_0)
  ultimately have "0 < unat (st + bitidx * MI_SEGMENT_SIZE)" by simp
  then show ?thesis by (simp add: unat_gt_0)
qed


lemma or_and_not_disjoint:
  assumes "(mp::uintptr) AND mk = 0"
  shows "(mp OR mk) AND NOT mk = mp"
proof (rule bit_word_eqI)
  fix n assume "n < LENGTH(64)"
  have "\<not> (bit mp n \<and> bit mk n)"
    using assms by (metis bit_and_iff bit_0_eq bot_apply bot_bool_def)
  then show "bit ((mp OR mk) AND NOT mk) n = bit mp n"
    using \<open>n < LENGTH(64)\<close> by (auto simp: bit_and_iff bit_or_iff bit_not_iff)
qed

lemma alloc_blocks_spec:
  assumes ok: "state_ok s" and os: "os_ok e" and i: "unat idx < unat MI_REGION_MAX"
    and q: "others_map s = []" and B: "1 \<le> unat blocks" "unat blocks < 64"
  shows "\<exists>r. mi_region_alloc_blocks e idx blocks sz commit p memid s = Some r \<and>
             state_ok (snd (snd (snd r))) \<and> others_map (snd (snd (snd r))) = [] \<and>
             (r = (True, p, memid, s) \<or> out_of_memory e p memid s r \<or> claimed idx blocks s r)"
proof -
  let ?i = "unat idx" and ?B = "unat blocks"
  let ?mp = "map_word (regions s ?i)"
  let ?r = "find_range ?mp 0 blocks"
  have B64: "?B \<le> 64" using B(2) by simp
  have blt: "blocks < MI_REGION_MAP_BITS" using B(2) by (simp add: const_defs word_less_nat_alt)
  have m0: "mi_region_block_mask blocks 0 = Some (mask ?B)"
    using block_mask_Some[OF blt, of 0] by (simp add: const_defs)
  note cl = claim_loop_quiet[OF q B(1) B64, of ?i "mask ?B"]
  note ff = find_range_first_fit[OF B(1) B64, of ?mp]
  show ?thesis
  proof (cases "?r > MI_REGION_MAP_BITS - blocks")
    case True
    then have "mi_region_alloc_blocks e idx blocks sz commit p memid s = Some (True, p, memid, s)"
      using m0 cl by (simp add: mi_region_alloc_blocks_def Let_def)
    then show ?thesis using ok q by simp
  next
    case False
    then have rle: "?r \<le> MI_REGION_MAP_BITS - blocks" by simp
    have fit: "free_run ?mp ?B (unat ?r)" and low: "\<forall>i < unat ?r. \<not> free_run ?mp ?B i"
      using ff rle by simp_all
    have r64: "unat ?r + ?B \<le> 64" using fit by (simp add: free_run_def)
    then have rlt: "?r < MI_REGION_MAP_BITS" using B(1) by (simp add: const_defs word_less_nat_alt)
    let ?mk = "push_bit (unat ?r) (mask ?B) :: uintptr"
    let ?sc = "s\<lparr>regions := (regions s)(?i := (regions s ?i)\<lparr>map_word := ?mp OR ?mk\<rparr>),
                  trace := trace s @ [Map_write ?i (?mp OR ?mk)]\<rparr>"
    have disj: "?mp AND ?mk = 0" using fit by (simp add: free_run_def)
    have cl': "claim_loop ?i blocks (mask ?B) 0 s = Some (Some ?r, ?sc)"
      using cl False by (simp add: Let_def)
    have ab: "mi_region_alloc_blocks e idx blocks sz commit p memid s =
                mi_region_commit_blocks e idx ?r blocks sz commit p memid ?sc"
      using m0 cl' by (simp add: mi_region_alloc_blocks_def)
    have okc: "state_ok ?sc" by (rule state_ok_frame[OF ok]) simp_all
    have bm: "mi_region_block_mask blocks ?r = Some ?mk" using block_mask_Some[OF blt rlt] .
    obtain okay p' memid' s' where
      cb: "mi_region_commit_blocks e idx ?r blocks sz commit p memid ?sc = Some (okay, p', memid', s')"
      and ok': "state_ok s'"
      and sp: "if okay then
              p' = start (regions s' ?i) + ?r * MI_SEGMENT_SIZE \<and>
              start (regions s' ?i) \<noteq> 0 \<and>
              memid' = idx * MI_REGION_MAP_BITS + ?r \<and>
              (\<forall>j. map_word (regions s' j) = map_word (regions ?sc j)) \<and>
              (\<forall>j. j \<noteq> ?i \<longrightarrow> regions s' j = regions ?sc j) \<and>
              others_map s' = others_map ?sc \<and>
              (\<exists>evs. trace s' = trace ?sc @ evs \<and> benign evs p')
            else
              p' = p \<and> memid' = memid \<and>
              s' = unclaim ?i ?mk
                     (?sc\<lparr>trace := trace ?sc @
                        [Os_alloc_aligned MI_REGION_SIZE MI_SEGMENT_ALIGN (eager_region_commit e) 0]\<rparr>)"
      using commit_blocks_spec[OF okc os i bm, of sz commit p memid] by blast
    show ?thesis
    proof (cases okay)
      case True
      from sp True obtain evs where
        p': "p' = start (regions s' ?i) + ?r * MI_SEGMENT_SIZE" and
        st: "start (regions s' ?i) \<noteq> 0" and
        mid: "memid' = idx * MI_REGION_MAP_BITS + ?r" and
        maps: "\<forall>j. map_word (regions s' j) = map_word (regions ?sc j)" and
        oth: "\<forall>j. j \<noteq> ?i \<longrightarrow> regions s' j = regions ?sc j" and
        om: "others_map s' = others_map ?sc" and
        tr: "trace s' = trace ?sc @ evs" and ben: "benign evs p'"
        by auto
      have "region_ptr_ok (start (regions s' ?i))" using ok' st by (auto simp: state_ok_def)
      then have pn: "p' \<noteq> 0" unfolding p' using r64 B(1) by (intro block_ptr_nonzero) simp_all
      have mw: "map_word (regions s' ?i) = ?mp OR ?mk" using maps by simp
      have "claimed idx blocks s (True, p', memid', s')"
        unfolding claimed_def
        apply (rule exI[of _ ?r], rule exI[of _ p'], rule exI[of _ s'], rule exI[of _ evs])
        using pn p' mid fit low mw oth om q tr ben by simp
      then show ?thesis using ab cb True ok' om q by simp
    next
      case False
      let ?sa = "?sc\<lparr>trace := trace ?sc @
           [Os_alloc_aligned MI_REGION_SIZE MI_SEGMENT_ALIGN (eager_region_commit e) 0]\<rparr>"
      have qa: "others_map ?sa = []" using q by simp
      from sp False have pm: "p' = p" "memid' = memid" and s': "s' = unclaim ?i ?mk ?sa" by auto
      have rb: "(?mp OR ?mk) AND NOT ?mk = ?mp" using disj by (rule or_and_not_disjoint)
      have s'': "s' = ?sa\<lparr>regions := (regions ?sa)(?i := (regions ?sa ?i)\<lparr>map_word := map_word (regions ?sa ?i) AND NOT ?mk\<rparr>),
           trace := trace ?sa @ [Map_write ?i (map_word (regions ?sa ?i) AND NOT ?mk)]\<rparr>"
        unfolding s' by (rule unclaim_quiet[OF qa])
      have regs: "regions s' = regions s" unfolding s'' using rb by (simp add: fun_eq_iff)
      have "out_of_memory e p memid s (False, p', memid', s')"
        unfolding out_of_memory_def
        apply (rule exI[of _ s'], rule exI[of _ ?i], rule exI[of _ "?mp OR ?mk"])
        using pm regs rb q by (simp add: s'')
      then show ?thesis using ab cb False ok' q by (simp add: s'')
    qed
  qed
qed

lemma try_alloc_blocks_spec:
  assumes ok: "state_ok s" and os: "os_ok e" and i: "unat idx < unat MI_REGION_MAX"
    and q: "others_map s = []" and B: "1 \<le> unat blocks" "unat blocks < 64"
  shows "\<exists>r. mi_region_try_alloc_blocks e idx blocks sz commit p memid s = Some r \<and>
             state_ok (snd (snd (snd r))) \<and> others_map (snd (snd (snd r))) = [] \<and>
             (r = (True, p, memid, s) \<or> out_of_memory e p memid s r \<or> claimed idx blocks s r)"
proof (cases "map_word (regions s (unat idx)) \<noteq> MI_REGION_MAP_FULL")
  case True
  then show ?thesis
    using alloc_blocks_spec[OF assms, of sz commit p memid]
    by (simp add: mi_region_try_alloc_blocks_def Let_def)
next
  case False
  then show ?thesis using ok q by (simp add: mi_region_try_alloc_blocks_def Let_def)
qed

lemma align_up_bound:
  assumes a0: "a \<noteq> 0" and dv: "MI_SEGMENT_SIZE mod a = 0" and le: "sz \<le> MI_REGION_MAX_ALLOC_SIZE"
  shows "\<exists>sz'. mi_align_up sz a = Some sz' \<and> sz \<le> sz' \<and> sz' \<le> MI_REGION_MAX_ALLOC_SIZE"
proof -
  let ?A = "unat a" and ?S = "unat sz"
  have A0: "0 < ?A" using a0 by (simp add: unat_gt_0)
  have "unat (MI_SEGMENT_SIZE mod a) = 0" using dv by simp
  then have "4194304 mod ?A = 0" by (simp add: unat_mod const_defs)
  then have dvd: "?A dvd 4194304" by (simp add: dvd_eq_mod_eq_0)
  then have dvdM: "?A dvd 67108864" by (rule dvd_trans) simp
  have S: "?S \<le> 67108864" using le by (simp add: const_defs word_le_nat_alt)
  let ?x = "(sz div a) * a"
  have xle: "(?S div ?A) * ?A \<le> ?S" by simp
  have ux: "unat ?x = (?S div ?A) * ?A"
  proof -
    have "(?S div ?A) * ?A < 2 ^ LENGTH(64)"
      using xle S by (intro le_less_trans[OF xle]) simp
    then have "unat (sz div a) * unat a < 2 ^ LENGTH(64)"
      by (simp add: unat_div)
    then have "unat ?x = unat (sz div a) * unat a" by (simp only: unat_mult_lem)
    then show ?thesis by (simp add: unat_div)
  qed
  show ?thesis
  proof (cases "?x < sz")
    case True
    then have lt: "(?S div ?A) * ?A < ?S" using ux by (simp add: word_less_nat_alt)
    obtain k where k: "67108864 = ?A * k" using dvdM by (auto simp: dvd_def)
    have "?S div ?A < k"
    proof (rule ccontr)
      assume "\<not> ?S div ?A < k"
      then have "k \<le> ?S div ?A" by simp
      then have "k * ?A \<le> (?S div ?A) * ?A" by (rule mult_le_mono1)
      moreover have "k * ?A = 67108864" using k by (simp add: ac_simps)
      ultimately show False using lt S by linarith
    qed
    then have "Suc (?S div ?A) * ?A \<le> k * ?A" by (intro mult_le_mono1) simp
    then have up: "(?S div ?A) * ?A + ?A \<le> 67108864" using k by (simp add: ac_simps)
    have "unat ?x + unat a < 2 ^ LENGTH(64)" using ux up by simp
    then have "unat (?x + a) = unat ?x + unat a" by (simp only: unat_add_lem)
    then have uxa: "unat (?x + a) = (?S div ?A) * ?A + ?A" using ux by simp
    have ge: "?S \<le> (?S div ?A) * ?A + ?A"
      using A0 by (metis add.commute div_mult_mod_eq less_imp_le_nat mod_less_divisor add_le_cancel_left mult.commute)
    have "mi_align_up sz a = Some (?x + a)" using a0 True by (simp add: mi_align_up_def Let_def)
    moreover have "sz \<le> ?x + a" using uxa ge by (simp add: word_le_nat_alt)
    moreover have "?x + a \<le> MI_REGION_MAX_ALLOC_SIZE"
      using uxa up by (simp add: word_le_nat_alt const_defs)
    ultimately show ?thesis by simp
  next
    case False
    then have "mi_align_up sz a = Some ?x" using a0 by (simp add: mi_align_up_def Let_def)
    moreover have "sz \<le> ?x" using False by simp
    moreover have "?x \<le> MI_REGION_MAX_ALLOC_SIZE"
      using ux le_trans[OF xle S] by (simp add: word_le_nat_alt const_defs)
    ultimately show ?thesis by simp
  qed
qed

lemma block_count_range:
  assumes "sz \<noteq> 0" and "sz \<le> MI_REGION_MAX_ALLOC_SIZE"
  shows "1 \<le> unat (mi_region_block_count sz)" and "unat (mi_region_block_count sz) \<le> 16"
proof -
  have bc: "unat (mi_region_block_count sz) = (unat sz + 4194303) div 4194304"
    using assms(2) by (rule block_count_unat)
  have "0 < unat sz" using assms(1) by (simp add: unat_gt_0)
  then show "1 \<le> unat (mi_region_block_count sz)" unfolding bc by arith
  have "unat sz \<le> 67108864" using assms(2) by (simp add: const_defs word_le_nat_alt)
  then show "unat (mi_region_block_count sz) \<le> 16" unfolding bc by arith
qed


subsection \<open>The two sweeps\<close>

lemma first_sweep_spec:
  assumes "state_ok s" and "os_ok e" and "others_map s = []"
    and "1 \<le> unat blocks" and "unat blocks < 64"
    and "count \<le> MI_REGION_MAX" and "p = 0"
  shows "\<exists>r. first_sweep e blocks sz commit count visited idx p memid s = Some r \<and>
             state_ok (snd (snd (snd r))) \<and> others_map (snd (snd (snd r))) = [] \<and>
             (r = (True, 0, memid, s) \<or> out_of_memory e 0 memid s r \<or>
              (\<exists>j. unat j < unat MI_REGION_MAX \<and> claimed j blocks s r))"
  using assms
proof (induction e blocks sz commit count visited idx p memid s rule: first_sweep.induct)
  case (1 e blocks sz commit count visited idx p memid s)
  note ok = "1.prems"(1) and os = "1.prems"(2) and q = "1.prems"(3)
    and B = "1.prems"(4,5) and cnt = "1.prems"(6) and p0 = "1.prems"(7)
  show ?case
  proof (cases "visited < count")
    case False
    then show ?thesis using ok q p0 by (subst first_sweep.simps) simp
  next
    case True
    then have c0: "count \<noteq> 0" by auto
    have "idx mod count < count" using c0 by (simp add: word_mod_less_divisor word_neq_0_conv)
    then have "idx mod count < MI_REGION_MAX" using cnt by simp
    then have i: "unat (idx mod count) < unat MI_REGION_MAX" by (simp add: word_less_nat_alt)
    obtain r where r: "mi_region_try_alloc_blocks e (idx mod count) blocks sz commit p memid s = Some r"
      and okr: "state_ok (snd (snd (snd r)))" and qr: "others_map (snd (snd (snd r))) = []"
      and cases: "r = (True, p, memid, s) \<or> out_of_memory e p memid s r \<or>
                  claimed (idx mod count) blocks s r"
      using try_alloc_blocks_spec[OF ok os i q B, of sz commit p memid] by blast
    from cases show ?thesis
    proof (elim disjE)
      assume same: "r = (True, p, memid, s)"
      then have "first_sweep e blocks sz commit count visited idx p memid s =
                 first_sweep e blocks sz commit count (visited + 1) (idx + 1) p memid s"
        using True r p0 by (subst first_sweep.simps) simp
      moreover have "\<exists>r. first_sweep e blocks sz commit count (visited + 1) (idx + 1) p memid s = Some r \<and>
             state_ok (snd (snd (snd r))) \<and> others_map (snd (snd (snd r))) = [] \<and>
             (r = (True, 0, memid, s) \<or> out_of_memory e 0 memid s r \<or>
              (\<exists>j. unat j < unat MI_REGION_MAX \<and> claimed j blocks s r))"
        using "1.IH"[OF True r[unfolded same] refl refl refl _ _ ok os q B cnt p0] p0 by simp
      ultimately show ?thesis by simp
    next
      assume oom: "out_of_memory e p memid s r"
      then obtain s' where "r = (False, p, memid, s')" by (auto simp: out_of_memory_def)
      then have "first_sweep e blocks sz commit count visited idx p memid s = Some r"
        using True r by (subst first_sweep.simps) simp
      then show ?thesis using okr qr oom p0 by auto
    next
      assume cl: "claimed (idx mod count) blocks s r"
      then obtain p' memid' s' where "r = (True, p', memid', s')" "p' \<noteq> 0"
        by (auto simp: claimed_def)
      then have "first_sweep e blocks sz commit count visited idx p memid s = Some r"
        using True r by (subst first_sweep.simps) simp
      then show ?thesis using okr qr cl i by auto
    qed
  qed
qed

lemma second_sweep_spec:
  assumes "state_ok s" and "os_ok e" and "others_map s = []"
    and "1 \<le> unat blocks" and "unat blocks < 64" and "p = 0"
  shows "\<exists>r. second_sweep e blocks sz commit idx p memid s = Some r \<and>
             state_ok (snd (snd (snd r))) \<and> others_map (snd (snd (snd r))) = [] \<and>
             (r = (True, 0, memid, s) \<or> out_of_memory e 0 memid s r \<or>
              (\<exists>j. unat j < unat MI_REGION_MAX \<and> claimed j blocks s r))"
  using assms
proof (induction e blocks sz commit idx p memid s rule: second_sweep.induct)
  case (1 e blocks sz commit idx p memid s)
  note ok = "1.prems"(1) and os = "1.prems"(2) and q = "1.prems"(3)
    and B = "1.prems"(4,5) and p0 = "1.prems"(6)
  show ?case
  proof (cases "idx < MI_REGION_MAX")
    case False
    then show ?thesis using ok q p0 by (subst second_sweep.simps) simp
  next
    case True
    then have i: "unat idx < unat MI_REGION_MAX" by (simp add: word_less_nat_alt)
    obtain r where r: "mi_region_try_alloc_blocks e idx blocks sz commit p memid s = Some r"
      and okr: "state_ok (snd (snd (snd r)))" and qr: "others_map (snd (snd (snd r))) = []"
      and cases: "r = (True, p, memid, s) \<or> out_of_memory e p memid s r \<or>
                  claimed idx blocks s r"
      using try_alloc_blocks_spec[OF ok os i q B, of sz commit p memid] by blast
    from cases show ?thesis
    proof (elim disjE)
      assume same: "r = (True, p, memid, s)"
      then have "second_sweep e blocks sz commit idx p memid s =
                 second_sweep e blocks sz commit (idx + 1) p memid s"
        using True r p0 by (subst second_sweep.simps) simp
      moreover have "\<exists>r. second_sweep e blocks sz commit (idx + 1) p memid s = Some r \<and>
             state_ok (snd (snd (snd r))) \<and> others_map (snd (snd (snd r))) = [] \<and>
             (r = (True, 0, memid, s) \<or> out_of_memory e 0 memid s r \<or>
              (\<exists>j. unat j < unat MI_REGION_MAX \<and> claimed j blocks s r))"
        using "1.IH"[OF True r[unfolded same] refl refl refl _ _ ok os q B p0] p0 by simp
      ultimately show ?thesis by simp
    next
      assume oom: "out_of_memory e p memid s r"
      then obtain s' where "r = (False, p, memid, s')" by (auto simp: out_of_memory_def)
      then have "second_sweep e blocks sz commit idx p memid s = Some r"
        using True r by (subst second_sweep.simps) simp
      then show ?thesis using okr qr oom p0 by auto
    next
      assume cl: "claimed idx blocks s r"
      then obtain p' memid' s' where "r = (True, p', memid', s')" "p' \<noteq> 0"
        by (auto simp: claimed_def)
      then have "second_sweep e blocks sz commit idx p memid s = Some r"
        using True r by (subst second_sweep.simps) simp
      then show ?thesis using okr qr cl i by auto
    qed
  qed
qed

subsection \<open>The outcomes of an allocation from the regions\<close>

lemma regions_count_le:
  assumes "state_ok s"
  shows "regions_count s \<le> MI_REGION_MAX"
  using assms card_started_le[of s] by (simp add: state_ok_def word_le_nat_alt)

lemma claimed_after_increment:
  "claimed j blocks (others_increment s) r \<Longrightarrow> claimed j blocks s r"
  by (simp add: claimed_def others_increment_frame)

lemma alloc_aligned_spec:
  assumes ok: "state_ok s" and os: "os_ok e" and q: "others_map s = []"
    and sz: "sz \<noteq> 0" "sz \<le> MI_REGION_MAX_ALLOC_SIZE" and al: "alignment \<le> MI_SEGMENT_ALIGN"
  shows "\<exists>sz' p memid s'.
      mi_align_up sz (os_page_size e) = Some sz' \<and> sz' \<noteq> 0 \<and> sz' \<le> MI_REGION_MAX_ALLOC_SIZE \<and>
      mi_mem_alloc_aligned e sz alignment commit s = Some (p, memid, s') \<and>
      state_ok s' \<and> others_map s' = [] \<and>
      (p = 0 \<and> memid = SIZE_MAX \<and>
         out_of_memory e 0 SIZE_MAX (others_increment s) (False, 0, SIZE_MAX, s') \<or>
       (\<exists>j. unat j < unat MI_REGION_MAX \<and>
            claimed j (mi_region_block_count sz') s (True, p, memid, s')) \<or>
       memid = SIZE_MAX \<and> p = os_alloc_result e (trace s) sz' alignment commit \<and>
         s' = (others_increment s)\<lparr>trace := trace s @ [Os_alloc_aligned sz' alignment commit p]\<rparr>)"
proof -
  define s0 where "s0 = others_increment s"
  have ok0: "state_ok s0" unfolding s0_def using ok by (rule others_increment_ok)
  have q0: "others_map s0 = []" using q by (simp add: s0_def others_increment_frame)
  have tr0: "trace s0 = trace s" by (simp add: s0_def others_increment_frame)
  have pg: "os_page_size e \<noteq> 0" "MI_SEGMENT_SIZE mod os_page_size e = 0"
    using os by (simp_all add: os_ok_def)
  obtain sz' where up: "mi_align_up sz (os_page_size e) = Some sz'"
    and ge: "sz \<le> sz'" and le: "sz' \<le> MI_REGION_MAX_ALLOC_SIZE"
    using align_up_bound[OF pg sz(2)] by blast
  have nz: "sz' \<noteq> 0" using ge sz(1) by auto
  let ?blocks = "mi_region_block_count sz'"
  have B: "1 \<le> unat ?blocks" "unat ?blocks < 64"
    using block_count_range[OF nz le] by simp_all
  have cnt: "regions_count s0 \<le> MI_REGION_MAX" using ok0 by (rule regions_count_le)
  have region_path: "\<not> (sz > MI_REGION_MAX_ALLOC_SIZE \<or> alignment > MI_SEGMENT_ALIGN)"
    using sz(2) al by (simp add: not_less)
  let ?fs = "first_sweep e ?blocks sz' commit (regions_count s0) 0 (region_next_idx s0) 0 SIZE_MAX s0"
  let ?ss = "second_sweep e ?blocks sz' commit (regions_count s0) 0 SIZE_MAX s0"
  let ?goal = "\<lambda>p memid s'. state_ok s' \<and> others_map s' = [] \<and>
      (p = 0 \<and> memid = SIZE_MAX \<and> out_of_memory e 0 SIZE_MAX s0 (False, 0, SIZE_MAX, s') \<or>
       (\<exists>j. unat j < unat MI_REGION_MAX \<and> claimed j ?blocks s0 (True, p, memid, s')) \<or>
       memid = SIZE_MAX \<and> p = os_alloc_result e (trace s0) sz' alignment commit \<and>
         s' = s0\<lparr>trace := trace s0 @ [Os_alloc_aligned sz' alignment commit p]\<rparr>)"
  have unfold: "mi_mem_alloc_aligned e sz alignment commit s =
      (case ?fs of
         None \<Rightarrow> None
       | Some (ok1, p1, memid1, s1) \<Rightarrow>
           if \<not> ok1 then Some (0, memid1, s1)
           else
             case (if p1 = 0 then second_sweep e ?blocks sz' commit (regions_count s0) p1 memid1 s1
                   else Some (True, p1, memid1, s1)) of
               None \<Rightarrow> None
             | Some (ok2, p2, memid2, s2) \<Rightarrow>
                 if \<not> ok2 then Some (0, memid2, s2)
                 else if p2 = 0 then
                   let (r, s3) = mi_os_alloc_aligned e sz' alignment commit s2
                   in Some (r, memid2, s3)
                 else Some (p2, memid2, s2))"
    unfolding s0_def using region_path up
    by (simp add: mi_mem_alloc_aligned_def mi_atomic_read_count_def Let_def)
  obtain r1 where r1: "?fs = Some r1"
    and ok1: "state_ok (snd (snd (snd r1)))" and q1: "others_map (snd (snd (snd r1))) = []"
    and c1: "r1 = (True, 0, SIZE_MAX, s0) \<or> out_of_memory e 0 SIZE_MAX s0 r1 \<or>
             (\<exists>j. unat j < unat MI_REGION_MAX \<and> claimed j ?blocks s0 r1)"
    using first_sweep_spec[OF ok0 os q0 B cnt refl, of sz' commit 0 "region_next_idx s0" SIZE_MAX] by blast
  have "\<exists>p memid s'. mi_mem_alloc_aligned e sz alignment commit s = Some (p, memid, s') \<and>
          ?goal p memid s'"
    using c1
  proof (elim disjE exE conjE)
    assume same1: "r1 = (True, 0, SIZE_MAX, s0)"
    obtain r2 where r2: "?ss = Some r2"
      and ok2: "state_ok (snd (snd (snd r2)))" and q2: "others_map (snd (snd (snd r2))) = []"
      and c2: "r2 = (True, 0, SIZE_MAX, s0) \<or> out_of_memory e 0 SIZE_MAX s0 r2 \<or>
               (\<exists>j. unat j < unat MI_REGION_MAX \<and> claimed j ?blocks s0 r2)"
      using second_sweep_spec[OF ok0 os q0 B refl, of sz' commit "regions_count s0" SIZE_MAX] by blast
    from c2 show ?thesis
    proof (elim disjE exE conjE)
      assume same2: "r2 = (True, 0, SIZE_MAX, s0)"
      let ?p = "os_alloc_result e (trace s0) sz' alignment commit"
      let ?s' = "s0\<lparr>trace := trace s0 @ [Os_alloc_aligned sz' alignment commit ?p]\<rparr>"
      have "mi_mem_alloc_aligned e sz alignment commit s = Some (?p, SIZE_MAX, ?s')"
        unfolding unfold using r1 same1 r2 same2
        by (simp add: mi_os_alloc_aligned_def Let_def)
      moreover have "state_ok ?s'" by (rule state_ok_frame[OF ok0]) simp_all
      ultimately show ?thesis using q0 by simp
    next
      assume oom: "out_of_memory e 0 SIZE_MAX s0 r2"
      then obtain s' where r2eq: "r2 = (False, 0, SIZE_MAX, s')" by (auto simp: out_of_memory_def)
      have "mi_mem_alloc_aligned e sz alignment commit s = Some (0, SIZE_MAX, s')"
        unfolding unfold using r1 same1 r2 r2eq by simp
      then show ?thesis using ok2 q2 oom r2eq by simp
    next
      fix j assume j: "unat j < unat MI_REGION_MAX" and cl: "claimed j ?blocks s0 r2"
      then obtain p' memid' s' where r2eq: "r2 = (True, p', memid', s')" and pn: "p' \<noteq> 0"
        by (auto simp: claimed_def)
      have "mi_mem_alloc_aligned e sz alignment commit s = Some (p', memid', s')"
        unfolding unfold using r1 same1 r2 r2eq pn by simp
      then show ?thesis using ok2 q2 cl j r2eq by auto
    qed
  next
    assume oom: "out_of_memory e 0 SIZE_MAX s0 r1"
    then obtain s' where r1eq: "r1 = (False, 0, SIZE_MAX, s')" by (auto simp: out_of_memory_def)
    have "mi_mem_alloc_aligned e sz alignment commit s = Some (0, SIZE_MAX, s')"
      unfolding unfold using r1 r1eq by simp
    then show ?thesis using ok1 q1 oom r1eq by simp
  next
    fix j assume j: "unat j < unat MI_REGION_MAX" and cl: "claimed j ?blocks s0 r1"
    then obtain p' memid' s' where r1eq: "r1 = (True, p', memid', s')" and pn: "p' \<noteq> 0"
      by (auto simp: claimed_def)
    have "mi_mem_alloc_aligned e sz alignment commit s = Some (p', memid', s')"
      unfolding unfold using r1 r1eq pn by simp
    then show ?thesis using ok1 q1 cl j r1eq by auto
  qed
  then obtain p memid s' where r: "mi_mem_alloc_aligned e sz alignment commit s = Some (p, memid, s')"
    and g: "?goal p memid s'" by blast
  have g': "state_ok s' \<and> others_map s' = [] \<and>
      (p = 0 \<and> memid = SIZE_MAX \<and>
         out_of_memory e 0 SIZE_MAX (others_increment s) (False, 0, SIZE_MAX, s') \<or>
       (\<exists>j. unat j < unat MI_REGION_MAX \<and> claimed j ?blocks s (True, p, memid, s')) \<or>
       memid = SIZE_MAX \<and> p = os_alloc_result e (trace s) sz' alignment commit \<and>
         s' = (others_increment s)\<lparr>trace := trace s @ [Os_alloc_aligned sz' alignment commit p]\<rparr>)"
    using g claimed_after_increment[of _ ?blocks s "(True, p, memid, s')"]
    unfolding tr0 unfolding s0_def by blast
  show ?thesis using up nz le r g' by blast
qed

subsection \<open>Allocation followed by free\<close>

lemma memid_decode:
  assumes "unat j < unat MI_REGION_MAX" and "unat b < 64"
  shows "(j * MI_REGION_MAP_BITS + b) div MI_REGION_MAP_BITS = j"
    and "(j * MI_REGION_MAP_BITS + b) mod MI_REGION_MAP_BITS = b"
    and "j * MI_REGION_MAP_BITS + b \<noteq> SIZE_MAX"
proof -
  have j: "unat j < 1024" using assms(1) by (simp add: const_defs)
  have m: "unat (j * 64) = unat j * 64" using j by (simp add: unat_word_ariths)
  have "unat (j * 64) + unat b < 2 ^ LENGTH(64)" using m j assms(2) by simp
  then have "unat (j * 64 + b) = unat (j * 64) + unat b" by (simp only: unat_add_lem)
  then have u: "unat (j * 64 + b) = unat j * 64 + unat b" using m by simp
  have "unat ((j * 64 + b) div 64) = unat j" using u assms(2) by (simp add: unat_div)
  then show "(j * MI_REGION_MAP_BITS + b) div MI_REGION_MAP_BITS = j"
    by (simp add: const_defs word_unat_eq_iff)
  have "unat ((j * 64 + b) mod 64) = unat b" using u assms(2) by (simp add: unat_mod)
  then show "(j * MI_REGION_MAP_BITS + b) mod MI_REGION_MAP_BITS = b"
    by (simp add: const_defs word_unat_eq_iff)
  have "unat (j * 64 + b) < 65536" using u j assms(2) by simp
  moreover have "unat SIZE_MAX = 18446744073709551615"
    by (simp add: const_defs unsigned_minus_1_eq_mask mask_eq_exp_minus_1)
  ultimately have "unat (j * 64 + b) \<noteq> unat SIZE_MAX" by simp
  then show "j * MI_REGION_MAP_BITS + b \<noteq> SIZE_MAX" by (auto simp: const_defs)
qed

lemma claimed_bitidx:
  assumes "free_run mp b i" and "1 \<le> b"
  shows "i < 64"
  using assms by (simp add: free_run_def)

text \<open>The free of exactly what a claim returned, in a quiet environment.\<close>

lemma free_of_claimed:
  assumes os: "os_ok e" and sz: "sz \<noteq> 0" "sz \<le> MI_REGION_MAX_ALLOC_SIZE"
    and up: "mi_align_up sz (os_page_size e) = Some sz'"
    and nz: "sz' \<noteq> 0" and le: "sz' \<le> MI_REGION_MAX_ALLOC_SIZE"
    and j: "unat j < unat MI_REGION_MAX"
    and cl: "claimed j (mi_region_block_count sz') s (True, p, memid, s')"
  shows "\<exists>s''. mi_mem_free e p sz memid s' = Some s'' \<and> regions s'' = (regions s')(unat j := (regions s' (unat j))\<lparr>map_word := map_word (regions s (unat j))\<rparr>) \<and>
           (\<forall>i. map_word (regions s'' i) = map_word (regions s i))"
proof -
  let ?blocks = "mi_region_block_count sz'" and ?i = "unat j"
  let ?mp = "map_word (regions s ?i)"
  have B: "1 \<le> unat ?blocks" "unat ?blocks \<le> 16" using block_count_range[OF nz le] by simp_all
  from cl obtain bitidx evs where
    mid: "memid = j * MI_REGION_MAP_BITS + bitidx" and pn: "p \<noteq> 0"
    and p: "p = start (regions s' ?i) + bitidx * MI_SEGMENT_SIZE"
    and fit: "free_run ?mp (unat ?blocks) (unat bitidx)"
    and mw: "map_word (regions s' ?i) = ?mp OR push_bit (unat bitidx) (mask (unat ?blocks))"
    and oth: "\<forall>i. i \<noteq> ?i \<longrightarrow> regions s' i = regions s i"
    and q: "others_map s' = []"
    by (auto simp: claimed_def)
  let ?mk = "push_bit (unat bitidx) (mask (unat ?blocks)) :: uintptr"
  have b64: "unat bitidx + unat ?blocks \<le> 64" using fit by (simp add: free_run_def)
  then have bl: "unat bitidx < 64" using B(1) by simp
  note dec = memid_decode[OF j bl]
  have blt: "?blocks < MI_REGION_MAP_BITS" using B(2) by (simp add: const_defs word_less_nat_alt)
  have ilt: "bitidx < MI_REGION_MAP_BITS" using bl by (simp add: const_defs word_less_nat_alt)
  have bm: "mi_region_block_mask ?blocks bitidx = Some ?mk" using block_mask_Some[OF blt ilt] .
  have jlt: "\<not> j \<ge> MI_REGION_MAX" using j by (simp add: word_le_nat_alt not_le)
  have "unat bitidx + unat ?blocks < 2 ^ LENGTH(64)" using b64 by simp
  then have "unat (bitidx + ?blocks) = unat bitidx + unat ?blocks" by (simp only: unat_add_lem)
  then have fits: "\<not> bitidx + ?blocks > MI_REGION_MAP_BITS"
    using b64 by (simp add: const_defs word_less_nat_alt)
  let ?s1 = "if eager_region_commit e then mi_os_reset p sz' s' else mi_os_decommit p sz' s'"
  have q1: "others_map ?s1 = []" using q by (simp add: mi_os_reset_def mi_os_decommit_def)
  have r1: "regions ?s1 = regions s'" by (simp add: mi_os_reset_def mi_os_decommit_def)
  have fr: "mi_mem_free e p sz memid s' = Some (unclaim ?i ?mk ?s1)"
    using pn sz mid dec up bm jlt p fits
    by (simp add: mi_mem_free_def Let_def not_less)
  have disj: "?mp AND ?mk = 0" using fit by (simp add: free_run_def)
  have rb: "(?mp OR ?mk) AND NOT ?mk = ?mp" using disj by (rule or_and_not_disjoint)
  have regs: "regions (unclaim ?i ?mk ?s1) = (regions s')(?i := (regions s' ?i)\<lparr>map_word := ?mp\<rparr>)"
    unfolding unclaim_quiet[OF q1] using r1 mw rb by simp
  have "map_word (regions (unclaim ?i ?mk ?s1) i) = map_word (regions s i)" for i
    unfolding regs using oth by (cases "i = ?i") simp_all
  then show ?thesis using fr regs by simp
qed

text \<open>
  In a quiet environment, with a well-formed OS and state, a free of exactly the
  pointer, size and id that a successful region-backed allocation returned is defined
  and leaves the map of that region, and of every region, as it was before the
  allocation. Without the quiet environment this fails, by the stale index of a retry.
\<close>

theorem free_after_alloc_restores_map:
  assumes "state_ok s" and "os_ok e" and "others_map s = []"
    and "sz \<noteq> 0" and "sz \<le> MI_REGION_MAX_ALLOC_SIZE"
    and "mi_mem_alloc_aligned e sz alignment commit s = Some (p, memid, s')"
    and "p \<noteq> 0" and "memid \<noteq> SIZE_MAX"
  shows "\<exists>s''. mi_mem_free e p sz memid s' = Some s'' \<and>
           map_word (regions s'' (unat (memid div MI_REGION_MAP_BITS))) =
             map_word (regions s (unat (memid div MI_REGION_MAP_BITS))) \<and>
           (\<forall>i. map_word (regions s'' i) = map_word (regions s i))"
proof (cases "alignment \<le> MI_SEGMENT_ALIGN")
  case False
  then have "memid = SIZE_MAX"
    using assms(6)
    by (auto simp: mi_mem_alloc_aligned_def Let_def mi_os_alloc_aligned_def not_le
             split: option.splits)
  then show ?thesis using assms(8) by simp
next
  case True
  obtain sz' p1 memid1 s1 where
    up: "mi_align_up sz (os_page_size e) = Some sz'" and nz: "sz' \<noteq> 0"
    and le: "sz' \<le> MI_REGION_MAX_ALLOC_SIZE"
    and al: "mi_mem_alloc_aligned e sz alignment commit s = Some (p1, memid1, s1)"
    and c: "p1 = 0 \<and> memid1 = SIZE_MAX \<and> out_of_memory e 0 SIZE_MAX (others_increment s) (False, 0, SIZE_MAX, s1) \<or>
       (\<exists>j. unat j < unat MI_REGION_MAX \<and>
            claimed j (mi_region_block_count sz') s (True, p1, memid1, s1)) \<or>
       memid1 = SIZE_MAX \<and> p1 = os_alloc_result e (trace s) sz' alignment commit \<and>
         s1 = (others_increment s)\<lparr>trace := trace s @ [Os_alloc_aligned sz' alignment commit p1]\<rparr>"
    using alloc_aligned_spec[OF assms(1,2,3,4,5) True, of commit] by blast
  have eq: "p1 = p" "memid1 = memid" "s1 = s'" using al assms(6) by simp_all
  from c eq assms(7,8) obtain j where j: "unat j < unat MI_REGION_MAX"
    and cl: "claimed j (mi_region_block_count sz') s (True, p, memid, s')"
    by auto
  from free_of_claimed[OF assms(2,4,5) up nz le j cl]
  show ?thesis by blast
qed

subsection \<open>Runs on the concrete inputs\<close>

lemmas search_simps = find_range.simps skip_ones.simps count_zeros.simps claim_loop.simps
  unclaim.simps first_sweep.simps second_sweep.simps

lemmas alloc_defs = mi_mem_alloc_aligned_def mi_region_try_alloc_blocks_def
  mi_region_alloc_blocks_def mi_region_commit_blocks_def

lemmas demo_defs = demo_os_def demo_state_def

lemma demo_os_ok: "r = 0 \<or> region_ptr_ok r \<Longrightarrow> os_ok (demo_os r k)"
  by (auto simp: os_ok_def demo_os_def const_defs)

lemma demo_ptr_ok: "region_ptr_ok 0x40400000"
  by (simp add: region_ptr_ok_def const_defs)

lemma demo_state_ok: "st = 0 \<or> region_ptr_ok st \<Longrightarrow> state_ok (demo_state mp st)"
  by (auto simp: state_ok_def started_def demo_state_def const_defs)

lemma demo_alloc:
  "mi_mem_alloc_aligned (demo_os 0x40400000 True) 5000000 0 True (demo_state 0 0) =
     Some (0x40400000, 0,
           (demo_state 3 0x40400000)
             \<lparr>trace := [Map_write 0 3,
                        Os_alloc_aligned MI_REGION_SIZE MI_SEGMENT_ALIGN False 0x40400000,
                        Os_commit 0x40400000 0x600000 True]\<rparr>)"
  by (simp add: alloc_defs search_simps demo_defs const_simps atomic_simps Let_def fun_eq_iff)

lemma demo_alloc_oom:
  "mi_mem_alloc_aligned (demo_os 0 True) 5000000 0 True (demo_state 0 0) =
     Some (0, SIZE_MAX,
           (demo_state 0 0)
             \<lparr>trace := [Map_write 0 3,
                        Os_alloc_aligned MI_REGION_SIZE MI_SEGMENT_ALIGN False 0,
                        Map_write 0 0]\<rparr>)"
  by (simp add: alloc_defs search_simps demo_defs const_simps atomic_simps Let_def fun_eq_iff)

theorem free_after_alloc_restores_map_witness:
  "state_ok (demo_state 0 0) \<and> os_ok (demo_os 0x40400000 True) \<and>
   others_map (demo_state 0 0) = [] \<and> (5000000::size_t) \<noteq> 0 \<and>
   (5000000::size_t) \<le> MI_REGION_MAX_ALLOC_SIZE \<and>
   mi_mem_alloc_aligned (demo_os 0x40400000 True) 5000000 0 True (demo_state 0 0) =
     Some (0x40400000, 0,
           (demo_state 3 0x40400000)
             \<lparr>trace := [Map_write 0 3,
                        Os_alloc_aligned MI_REGION_SIZE MI_SEGMENT_ALIGN False 0x40400000,
                        Os_commit 0x40400000 0x600000 True]\<rparr>) \<and>
   (0x40400000::uintptr) \<noteq> 0 \<and> (0::size_t) \<noteq> SIZE_MAX \<and>
   (\<exists>s''. mi_mem_free (demo_os 0x40400000 True) 0x40400000 5000000 0
             ((demo_state 3 0x40400000)
                \<lparr>trace := [Map_write 0 3,
                           Os_alloc_aligned MI_REGION_SIZE MI_SEGMENT_ALIGN False 0x40400000,
                           Os_commit 0x40400000 0x600000 True]\<rparr>) = Some s'' \<and>
          map_word (regions s'' 0) = 0)"
proof -
  have h1: "state_ok (demo_state 0 0)" by (simp add: demo_state_ok)
  have h2: "os_ok (demo_os 0x40400000 True)" by (simp add: demo_os_ok demo_ptr_ok)
  have h3: "others_map (demo_state 0 0) = []" by (simp add: demo_state_def)
  have h4: "(5000000::size_t) \<noteq> 0" by simp
  have h5: "(5000000::size_t) \<le> MI_REGION_MAX_ALLOC_SIZE" by (simp add: const_defs)
  have h7: "(0x40400000::uintptr) \<noteq> 0" by simp
  have h8: "(0::size_t) \<noteq> SIZE_MAX" by (simp add: const_defs)
  from free_after_alloc_restores_map [OF h1 h2 h3 h4 h5 demo_alloc h7 h8]
  obtain s'' where f: "mi_mem_free (demo_os 0x40400000 True) 0x40400000 5000000 0
             ((demo_state 3 0x40400000)
                \<lparr>trace := [Map_write 0 3,
                           Os_alloc_aligned MI_REGION_SIZE MI_SEGMENT_ALIGN False 0x40400000,
                           Os_commit 0x40400000 0x600000 True]\<rparr>) = Some s''"
    and m: "\<forall>i. map_word (regions s'' i) = map_word (regions (demo_state 0 0) i)"
    by blast
  have "map_word (regions s'' 0) = 0" using m by (simp add: demo_state_def)
  then have "\<exists>s''. mi_mem_free (demo_os 0x40400000 True) 0x40400000 5000000 0
             ((demo_state 3 0x40400000)
                \<lparr>trace := [Map_write 0 3,
                           Os_alloc_aligned MI_REGION_SIZE MI_SEGMENT_ALIGN False 0x40400000,
                           Os_commit 0x40400000 0x600000 True]\<rparr>) = Some s'' \<and>
          map_word (regions s'' 0) = 0"
    using f by (intro exI conjI)
  then show ?thesis using h1 h2 h3 h5 h8 demo_alloc by simp
qed

subsection \<open>Failures of the OS\<close>

lemma or_and_absorb: "((a::uintptr) OR b) AND b = b"
  by (rule bit_word_eqI) (auto simp: bit_and_iff bit_or_iff)

lemma benign_commit:
  assumes "benign evs p" and "Os_commit q csz k \<in> set evs"
  shows "q = p"
proof -
  have "\<forall>ev \<in> set evs.
        (\<forall>c. ev \<noteq> Os_alloc_aligned MI_REGION_SIZE MI_SEGMENT_ALIGN c 0) \<and>
        (\<forall>q csz k. ev = Os_commit q csz k \<longrightarrow> q = p)"
    using assms(1) unfolding benign_def .
  from bspec[OF this assms(2)] show ?thesis by simp
qed

lemma benign_no_failed_reservation:
  assumes "benign evs p"
  shows "Os_alloc_aligned MI_REGION_SIZE MI_SEGMENT_ALIGN c 0 \<notin> set evs"
proof
  assume a: "Os_alloc_aligned MI_REGION_SIZE MI_SEGMENT_ALIGN c 0 \<in> set evs"
  have b: "\<forall>ev \<in> set evs.
        (\<forall>c. ev \<noteq> Os_alloc_aligned MI_REGION_SIZE MI_SEGMENT_ALIGN c 0) \<and>
        (\<forall>q csz k. ev = Os_commit q csz k \<longrightarrow> q = p)"
    using assms(1) unfolding benign_def .
  from bspec[OF b a] have "Os_alloc_aligned MI_REGION_SIZE MI_SEGMENT_ALIGN c 0 \<noteq>
      Os_alloc_aligned MI_REGION_SIZE MI_SEGMENT_ALIGN c 0"
    by (elim conjE allE[of _ c])
  then show False by simp
qed

lemma max_alloc_below_region_size: "sz' \<le> MI_REGION_MAX_ALLOC_SIZE \<Longrightarrow> sz' \<noteq> MI_REGION_SIZE"
  by (auto simp: const_defs)

text \<open>
  In a quiet environment, with a well-formed OS and state: when the reservation of
  a region's memory fails during an allocation from the regions (the trace of the call
  holds \<^verbatim>\<open>_mi_os_alloc_aligned(MI_REGION_SIZE, MI_SEGMENT_ALIGN, ..)\<close> with the result
  \<^verbatim>\<open>NULL\<close>), the allocation returns \<^verbatim>\<open>NULL\<close> with the id \<^verbatim>\<open>SIZE_MAX\<close>, and every region (its
  map and its start) is as before the call: the claim is rolled back. \<^verbatim>\<open>regions_count\<close>
  changes by the increments of other threads only. Without the quiet environment this
  fails, by the stale index of a retry.
\<close>

theorem failed_reservation_rolls_back:
  assumes "state_ok s" and "os_ok e" and "others_map s = []"
    and "sz \<noteq> 0" and "sz \<le> MI_REGION_MAX_ALLOC_SIZE" and "alignment \<le> MI_SEGMENT_ALIGN"
    and "mi_mem_alloc_aligned e sz alignment commit s = Some (p, memid, s')"
    and "Os_alloc_aligned MI_REGION_SIZE MI_SEGMENT_ALIGN c 0 \<in>
           set (drop (length (trace s)) (trace s'))"
  shows "p = 0 \<and> memid = SIZE_MAX \<and> regions s' = regions s \<and>
         regions_count s' = regions_count (others_increment s)"
proof -
  obtain sz' p1 memid1 s1 where
    le: "sz' \<le> MI_REGION_MAX_ALLOC_SIZE"
    and al: "mi_mem_alloc_aligned e sz alignment commit s = Some (p1, memid1, s1)"
    and c: "p1 = 0 \<and> memid1 = SIZE_MAX \<and> out_of_memory e 0 SIZE_MAX (others_increment s) (False, 0, SIZE_MAX, s1) \<or>
       (\<exists>j. unat j < unat MI_REGION_MAX \<and>
            claimed j (mi_region_block_count sz') s (True, p1, memid1, s1)) \<or>
       memid1 = SIZE_MAX \<and> p1 = os_alloc_result e (trace s) sz' alignment commit \<and>
         s1 = (others_increment s)\<lparr>trace := trace s @ [Os_alloc_aligned sz' alignment commit p1]\<rparr>"
    using alloc_aligned_spec[OF assms(1-6), of commit] by blast
  have eq: "p1 = p" "memid1 = memid" "s1 = s'" using al assms(7) by simp_all
  from c show ?thesis
  proof (elim disjE exE conjE)
    assume "p1 = 0" "memid1 = SIZE_MAX" "out_of_memory e 0 SIZE_MAX (others_increment s) (False, 0, SIZE_MAX, s1)"
    then show ?thesis using eq by (auto simp: out_of_memory_def others_increment_frame)
  next
    fix j assume "claimed j (mi_region_block_count sz') s (True, p1, memid1, s1)"
    then obtain evs w where "trace s' = trace s @ Map_write (unat j) w # evs" "benign evs p"
      using eq by (auto simp: claimed_def)
    then have False using assms(8) benign_no_failed_reservation[of evs p c] by simp
    then show ?thesis ..
  next
    assume "s1 = (others_increment s)\<lparr>trace := trace s @ [Os_alloc_aligned sz' alignment commit p1]\<rparr>"
    then have "sz' = MI_REGION_SIZE" using assms(8) eq by auto
    then have False using max_alloc_below_region_size[OF le] by simp
    then show ?thesis ..
  qed
qed

theorem failed_reservation_rolls_back_witness:
  "state_ok (demo_state 0 0) \<and> os_ok (demo_os 0 True) \<and> others_map (demo_state 0 0) = [] \<and>
   (5000000::size_t) \<noteq> 0 \<and> (5000000::size_t) \<le> MI_REGION_MAX_ALLOC_SIZE \<and>
   (0::size_t) \<le> MI_SEGMENT_ALIGN \<and>
   mi_mem_alloc_aligned (demo_os 0 True) 5000000 0 True (demo_state 0 0) =
     Some (0, SIZE_MAX,
           (demo_state 0 0)
             \<lparr>trace := [Map_write 0 3,
                        Os_alloc_aligned MI_REGION_SIZE MI_SEGMENT_ALIGN False 0,
                        Map_write 0 0]\<rparr>) \<and>
   Os_alloc_aligned MI_REGION_SIZE MI_SEGMENT_ALIGN False 0 \<in>
     set (drop (length (trace (demo_state 0 0)))
            [Map_write 0 3, Os_alloc_aligned MI_REGION_SIZE MI_SEGMENT_ALIGN False 0,
             Map_write 0 0]) \<and>
   regions ((demo_state 0 0)
             \<lparr>trace := [Map_write 0 3,
                        Os_alloc_aligned MI_REGION_SIZE MI_SEGMENT_ALIGN False 0,
                        Map_write 0 0]\<rparr>) = regions (demo_state 0 0)"
proof -
  have h1: "state_ok (demo_state 0 0)" by (simp add: demo_state_ok)
  have h2: "os_ok (demo_os 0 True)" by (simp add: demo_os_ok)
  have h3: "others_map (demo_state 0 0) = []" by (simp add: demo_state_def)
  have h4: "(5000000::size_t) \<noteq> 0" by simp
  have h5: "(5000000::size_t) \<le> MI_REGION_MAX_ALLOC_SIZE" by (simp add: const_defs)
  have h6: "(0::size_t) \<le> MI_SEGMENT_ALIGN" by simp
  have h8: "Os_alloc_aligned MI_REGION_SIZE MI_SEGMENT_ALIGN False 0 \<in>
     set (drop (length (trace (demo_state 0 0)))
       (trace ((demo_state 0 0)
             \<lparr>trace := [Map_write 0 3,
                        Os_alloc_aligned MI_REGION_SIZE MI_SEGMENT_ALIGN False 0,
                        Map_write 0 0]\<rparr>)))"
    by (simp add: demo_state_def)
  from failed_reservation_rolls_back [OF h1 h2 h3 h4 h5 h6 demo_alloc_oom h8]
  show ?thesis using h1 h2 h3 h5 h8 demo_alloc_oom by simp
qed

subsection \<open>The claim of a quiet try and of a retry\<close>

lemma no_fit_unchanged:
  assumes q: "others_map s = []" and B: "1 \<le> unat blocks" "unat blocks < 64"
    and none: "\<forall>i. \<not> free_run (map_word (regions s (unat idx))) (unat blocks) i"
  shows "mi_region_alloc_blocks e idx blocks sz commit p memid s = Some (True, p, memid, s)"
proof -
  let ?mp = "map_word (regions s (unat idx))"
  have B64: "unat blocks \<le> 64" using B(2) by simp
  have blt: "blocks < MI_REGION_MAP_BITS" using B(2) by (simp add: const_defs word_less_nat_alt)
  have m0: "mi_region_block_mask blocks 0 = Some (mask (unat blocks))"
    using block_mask_Some[OF blt, of 0] by (simp add: const_defs)
  have "find_range ?mp 0 blocks > MI_REGION_MAP_BITS - blocks"
    using find_range_first_fit[OF B(1) B64, of ?mp] none by (auto simp: not_le[symmetric])
  then show ?thesis
    using m0 claim_loop_quiet[OF q B(1) B64, of "unat idx" "mask (unat blocks)"]
    by (simp add: mi_region_alloc_blocks_def Let_def)
qed

lemma first_fit_claimed:
  assumes q: "others_map s = []" and B: "1 \<le> unat blocks" "unat blocks < 64"
    and fit: "free_run (map_word (regions s (unat idx))) (unat blocks) i"
    and low: "\<forall>i' < i. \<not> free_run (map_word (regions s (unat idx))) (unat blocks) i'"
  shows "mi_region_alloc_blocks e idx blocks sz commit p memid s =
           mi_region_commit_blocks e idx (word_of_nat i) blocks sz commit p memid
             (s\<lparr>regions := (regions s)(unat idx := (regions s (unat idx))
                     \<lparr>map_word := map_word (regions s (unat idx)) OR push_bit i (mask (unat blocks))\<rparr>),
                trace := trace s @
                  [Map_write (unat idx)
                     (map_word (regions s (unat idx)) OR push_bit i (mask (unat blocks)))]\<rparr>)"
proof -
  let ?mp = "map_word (regions s (unat idx))"
  let ?r = "find_range ?mp 0 blocks"
  have B64: "unat blocks \<le> 64" using B(2) by simp
  have blt: "blocks < MI_REGION_MAP_BITS" using B(2) by (simp add: const_defs word_less_nat_alt)
  have m0: "mi_region_block_mask blocks 0 = Some (mask (unat blocks))"
    using block_mask_Some[OF blt, of 0] by (simp add: const_defs)
  note ff = find_range_first_fit[OF B(1) B64, of ?mp]
  have le: "?r \<le> MI_REGION_MAP_BITS - blocks"
  proof (rule ccontr)
    assume "\<not> ?r \<le> MI_REGION_MAP_BITS - blocks"
    then have "\<not> free_run ?mp (unat blocks) i" using ff by (simp add: not_le)
    then show False using fit by simp
  qed
  then have rfit: "free_run ?mp (unat blocks) (unat ?r)"
    and rlow: "\<forall>i' < unat ?r. \<not> free_run ?mp (unat blocks) i'" using ff by simp_all
  have "unat ?r = i"
  proof (rule ccontr)
    assume "unat ?r \<noteq> i"
    then have "unat ?r < i \<or> i < unat ?r" by arith
    then show False using low rlow fit rfit by auto
  qed
  moreover have "word_of_nat (unat ?r) = ?r" by simp
  ultimately have r: "?r = word_of_nat i" by simp
  show ?thesis
    using m0 claim_loop_quiet[OF q B(1) B64, of "unat idx" "mask (unat blocks)"] le r \<open>unat ?r = i\<close>
    by (simp add: mi_region_alloc_blocks_def Let_def not_less[symmetric])
qed


text \<open>
  The search of \<^verbatim>\<open>mi_region_alloc_blocks\<close> in a quiet environment, for \<open>1 \<le> blocks \<le> 16\<close>:
  when the map has no free run of \<open>blocks\<close> bits the call returns \<^verbatim>\<open>true\<close> with \<^verbatim>\<open>*p\<close>,
  \<^verbatim>\<open>*id\<close> and the state untouched; otherwise it sets exactly the bits \<open>[i, i + blocks)\<close>
  of the lowest free run \<open>i\<close> and goes on to \<^verbatim>\<open>mi_region_commit_blocks\<close> at \<open>i\<close>.
\<close>

theorem region_alloc_claims_first_fit:
  assumes "others_map s = []" and "1 \<le> unat blocks" and "unat blocks \<le> 16"
  shows "((\<forall>i. \<not> free_run (map_word (regions s (unat idx))) (unat blocks) i) \<longrightarrow>
            mi_region_alloc_blocks e idx blocks sz commit p memid s = Some (True, p, memid, s)) \<and>
         (\<forall>i. free_run (map_word (regions s (unat idx))) (unat blocks) i \<and>
              (\<forall>i' < i. \<not> free_run (map_word (regions s (unat idx))) (unat blocks) i') \<longrightarrow>
            mi_region_alloc_blocks e idx blocks sz commit p memid s =
              mi_region_commit_blocks e idx (word_of_nat i) blocks sz commit p memid
                (s\<lparr>regions := (regions s)(unat idx := (regions s (unat idx))
                        \<lparr>map_word := map_word (regions s (unat idx)) OR
                                      push_bit i (mask (unat blocks))\<rparr>),
                   trace := trace s @
                     [Map_write (unat idx)
                        (map_word (regions s (unat idx)) OR push_bit i (mask (unat blocks)))]\<rparr>))"
proof -
  have B: "unat blocks < 64" using assms(3) by simp
  show ?thesis
    using no_fit_unchanged[OF assms(1,2) B] first_fit_claimed[OF assms(1,2) B] by blast
qed

theorem region_alloc_claims_first_fit_witness:
  "others_map (demo_state 0x0101 0x40400000) = [] \<and> 1 \<le> unat (8::size_t) \<and>
   unat (8::size_t) \<le> 16 \<and>
   free_run 0x0101 8 9 \<and> \<not> free_run 0x0101 8 0 \<and> \<not> free_run 0x0101 8 1 \<and>
   mi_region_alloc_blocks (demo_os 0 True) 0 8 0x2000000 True 0 SIZE_MAX
       (demo_state 0x0101 0x40400000) =
     Some (True, 0x42800000, 9,
           (demo_state 0x1FF01 0x40400000)
             \<lparr>trace := [Map_write 0 0x1FF01, Os_commit 0x42800000 0x2000000 True]\<rparr>) \<and>
   \<not> free_run 0x8080808080808080 8 0 \<and>
   mi_region_alloc_blocks (demo_os 0 True) 0 8 0x2000000 True 0 SIZE_MAX
       (demo_state 0x8080808080808080 0x40400000) =
     Some (True, 0, SIZE_MAX, demo_state 0x8080808080808080 0x40400000)"
proof -
  have h1: "others_map (demo_state 0x0101 0x40400000) = []" by (simp add: demo_state_def)
  have h2: "1 \<le> unat (8::size_t)" by simp
  have h3: "unat (8::size_t) \<le> 16" by simp
  have f: "free_run 0x0101 8 9" "\<not> free_run 0x0101 8 0" "\<not> free_run 0x0101 8 1"
    "\<not> free_run 0x8080808080808080 8 0"
    by (simp_all add: free_run_def mask_eq_exp_minus_1 push_bit_eq_mult)
  have e1: "mi_region_alloc_blocks (demo_os 0 True) 0 8 0x2000000 True 0 SIZE_MAX
       (demo_state 0x0101 0x40400000) =
     Some (True, 0x42800000, 9,
           (demo_state 0x1FF01 0x40400000)
             \<lparr>trace := [Map_write 0 0x1FF01, Os_commit 0x42800000 0x2000000 True]\<rparr>)"
    by (simp add: alloc_defs search_simps demo_defs const_simps atomic_simps Let_def fun_eq_iff)
  have e2: "mi_region_alloc_blocks (demo_os 0 True) 0 8 0x2000000 True 0 SIZE_MAX
       (demo_state 0x8080808080808080 0x40400000) =
     Some (True, 0, SIZE_MAX, demo_state 0x8080808080808080 0x40400000)"
    by (simp add: alloc_defs search_simps demo_defs const_simps atomic_simps Let_def fun_eq_iff)
  from region_alloc_claims_first_fit [OF h1 h2 h3] f e1 e2 h1 show ?thesis by simp
qed

text \<open>
  C1 (the code departs from the claim). \<^verbatim>\<open>bitidx\<close> is declared before the outer
  \<^verbatim>\<open>do ... while\<close> and is not reset when the compare-and-swap fails, so the retry walks the
  fresh map from bit 0 while counting from the old index. Region 0 has the map 3; one
  block is asked for, and the search finds bit 2. Before the compare-and-swap the other
  threads leave the map at 4 (bit 2 claimed by another thread, bits 0 and 1 freed). The
  retry reads 4, keeps \<^verbatim>\<open>bitidx = 2\<close>, sees a zero at the lowest bit of \<^verbatim>\<open>m\<close> and takes
  \<^verbatim>\<open>bitidx = 2\<close> as the free run: the compare-and-swap from 4 to 4 succeeds and block 2,
  which is in use, is returned with id 2, although the lowest free run of the map it
  read is at bit 0 and bit 2 is not free there.
\<close>

theorem retry_claims_stale_index:
  "mi_region_alloc_blocks (demo_os 0 True) 0 1 4096 True 0 SIZE_MAX
       ((demo_state 3 0x40400000)\<lparr>others_map := [4]\<rparr>) =
     Some (True, 0x40C00000, 2,
           (demo_state 4 0x40400000)
             \<lparr>trace := [Map_write 0 4, Os_commit 0x40C00000 0x200000 True]\<rparr>) \<and>
   free_run 4 1 0 \<and> \<not> free_run 4 1 2"
  by (simp add: alloc_defs search_simps demo_defs const_simps atomic_simps Let_def fun_eq_iff
        free_run_def mask_eq_exp_minus_1 push_bit_eq_mult)

theorem retry_claims_stale_index_witness:
  "(\<exists>s'. mi_region_alloc_blocks (demo_os 0 True) 0 1 4096 True 0 SIZE_MAX
          ((demo_state 3 0x40400000)\<lparr>others_map := [4]\<rparr>) =
            Some (True, 0x40C00000, 2, s') \<and>
         map_word (regions s' 0) = 4) \<and>
   4 AND push_bit 2 (mask 1) \<noteq> (0::uintptr)"
  using retry_claims_stale_index by (simp add: demo_state_def free_run_def)

subsection \<open>The stale index after an allocation and after a failed reservation\<close>

lemma state_ok_others_map: "state_ok (s\<lparr>others_map := ms\<rparr>) = state_ok s"
  by (simp add: state_ok_def started_def)

text \<open>
  C2 (the code departs from the claim). The allocation of one block from region 0, whose
  map is 3, finds bit 2; before its compare-and-swap the other threads leave the map at 4
  (bit 2 claimed by another thread, bits 0 and 1 freed). The retry keeps the stale
  \<^verbatim>\<open>bitidx = 2\<close> (the defect of C1), its compare-and-swap from 4 to 4 succeeds, and the
  allocation returns block 2 with id 2 and the map 4. The free of exactly this pointer,
  size and id clears bit 2: the map is 0, which is neither the 3 it was when the
  allocation was called nor the 4 it was when the allocation claimed. The bit of the other
  thread is gone.
\<close>

theorem free_after_retried_alloc_clears_foreign_bit:
  "state_ok ((demo_state 3 0x40400000)\<lparr>others_map := [4]\<rparr>) \<and> os_ok (demo_os 0 True) \<and>
   mi_mem_alloc_aligned (demo_os 0 True) 4096 0 True
       ((demo_state 3 0x40400000)\<lparr>others_map := [4]\<rparr>) =
     Some (0x40C00000, 2,
           (demo_state 4 0x40400000)
             \<lparr>trace := [Map_write 0 4, Os_commit 0x40C00000 0x200000 True]\<rparr>) \<and>
   mi_mem_free (demo_os 0 True) 0x40C00000 4096 2
       ((demo_state 4 0x40400000)
          \<lparr>trace := [Map_write 0 4, Os_commit 0x40C00000 0x200000 True]\<rparr>) =
     Some ((demo_state 0 0x40400000)
             \<lparr>trace := [Map_write 0 4, Os_commit 0x40C00000 0x200000 True,
                        Os_decommit 0x40C00000 4096, Map_write 0 0]\<rparr>) \<and>
   map_word (regions (demo_state 0 0x40400000) 0) \<noteq> 3 \<and>
   map_word (regions (demo_state 0 0x40400000) 0) \<noteq> 4"
proof -
  have "state_ok ((demo_state 3 0x40400000)\<lparr>others_map := [4]\<rparr>)"
    by (simp add: state_ok_others_map demo_state_ok demo_ptr_ok)
  moreover have "os_ok (demo_os 0 True)" by (simp add: demo_os_ok)
  moreover have "mi_mem_alloc_aligned (demo_os 0 True) 4096 0 True
       ((demo_state 3 0x40400000)\<lparr>others_map := [4]\<rparr>) =
     Some (0x40C00000, 2,
           (demo_state 4 0x40400000)
             \<lparr>trace := [Map_write 0 4, Os_commit 0x40C00000 0x200000 True]\<rparr>)"
    by (simp add: alloc_defs search_simps demo_defs const_simps atomic_simps Let_def fun_eq_iff)
  moreover have "mi_mem_free (demo_os 0 True) 0x40C00000 4096 2
       ((demo_state 4 0x40400000)
          \<lparr>trace := [Map_write 0 4, Os_commit 0x40C00000 0x200000 True]\<rparr>) =
     Some ((demo_state 0 0x40400000)
             \<lparr>trace := [Map_write 0 4, Os_commit 0x40C00000 0x200000 True,
                        Os_decommit 0x40C00000 4096, Map_write 0 0]\<rparr>)"
    by (simp add: mi_mem_free_def search_simps demo_defs const_simps atomic_simps Let_def fun_eq_iff)
  moreover have "map_word (regions (demo_state 0 0x40400000) 0) \<noteq> 3"
    "map_word (regions (demo_state 0 0x40400000) 0) \<noteq> 4"
    by (simp_all add: demo_state_def)
  ultimately show ?thesis by (intro conjI)
qed

theorem free_after_retried_alloc_clears_foreign_bit_witness:
  "\<exists>p memid s' s''.
     mi_mem_alloc_aligned (demo_os 0 True) 4096 0 True
       ((demo_state 3 0x40400000)\<lparr>others_map := [4]\<rparr>) = Some (p, memid, s') \<and>
     p \<noteq> 0 \<and> memid \<noteq> SIZE_MAX \<and> map_word (regions s' 0) = 4 \<and>
     mi_mem_free (demo_os 0 True) p 4096 memid s' = Some s'' \<and>
     map_word (regions s'' 0) = 0"
proof -
  have "(2::size_t) \<noteq> SIZE_MAX" by (simp add: const_defs)
  then show ?thesis
    using free_after_retried_alloc_clears_foreign_bit
    by (intro exI[of _ "0x40C00000"] exI[of _ 2]
          exI[of _ "(demo_state 4 0x40400000)
             \<lparr>trace := [Map_write 0 4, Os_commit 0x40C00000 0x200000 True]\<rparr>"]
          exI[of _ "(demo_state 0 0x40400000)
             \<lparr>trace := [Map_write 0 4, Os_commit 0x40C00000 0x200000 True,
                        Os_decommit 0x40C00000 4096, Map_write 0 0]\<rparr>"])
       (simp add: demo_state_def)
qed

text \<open>
  C3 (the code departs from the claim). Region 0 has no memory yet and the map 3 (other
  threads have claimed two blocks and are about to reserve). The allocation of one block
  finds bit 2; before its compare-and-swap the other threads leave the map at 4. The
  retry keeps the stale \<^verbatim>\<open>bitidx = 2\<close> (the defect of C1) and its compare-and-swap from 4
  to 4 succeeds: the claim leaves the map at 4, as it was before the claim. The
  reservation of the region fails, and the roll-back clears bit 2: the allocation returns
  \<^verbatim>\<open>NULL\<close> with the id \<^verbatim>\<open>SIZE_MAX\<close>, but the map is 0 and not the 4 it was before the claim.
  The bit of the other thread is gone.
\<close>

theorem rollback_after_retried_claim_clears_foreign_bit:
  "state_ok ((demo_state 3 0)\<lparr>others_map := [4]\<rparr>) \<and> os_ok (demo_os 0 True) \<and>
   claim_loop 0 1 1 0 ((demo_state 3 0)\<lparr>others_map := [4]\<rparr>) =
     Some (Some 2, (demo_state 4 0)\<lparr>trace := [Map_write 0 4]\<rparr>) \<and>
   mi_mem_alloc_aligned (demo_os 0 True) 4096 0 True
       ((demo_state 3 0)\<lparr>others_map := [4]\<rparr>) =
     Some (0, SIZE_MAX,
           (demo_state 0 0)
             \<lparr>trace := [Map_write 0 4,
                        Os_alloc_aligned MI_REGION_SIZE MI_SEGMENT_ALIGN False 0,
                        Map_write 0 0]\<rparr>) \<and>
   map_word (regions (demo_state 0 0) 0) \<noteq> 4"
proof -
  have "state_ok ((demo_state 3 0)\<lparr>others_map := [4]\<rparr>)"
    by (simp add: state_ok_others_map demo_state_ok)
  moreover have "os_ok (demo_os 0 True)" by (simp add: demo_os_ok)
  moreover have "claim_loop 0 1 1 0 ((demo_state 3 0)\<lparr>others_map := [4]\<rparr>) =
     Some (Some 2, (demo_state 4 0)\<lparr>trace := [Map_write 0 4]\<rparr>)"
    by (simp add: search_simps demo_defs const_simps atomic_simps Let_def fun_eq_iff)
  moreover have "mi_mem_alloc_aligned (demo_os 0 True) 4096 0 True
       ((demo_state 3 0)\<lparr>others_map := [4]\<rparr>) =
     Some (0, SIZE_MAX,
           (demo_state 0 0)
             \<lparr>trace := [Map_write 0 4,
                        Os_alloc_aligned MI_REGION_SIZE MI_SEGMENT_ALIGN False 0,
                        Map_write 0 0]\<rparr>)"
    by (simp add: alloc_defs search_simps demo_defs const_simps atomic_simps Let_def fun_eq_iff)
  moreover have "map_word (regions (demo_state 0 0) 0) \<noteq> 4" by (simp add: demo_state_def)
  ultimately show ?thesis by (intro conjI)
qed

theorem rollback_after_retried_claim_clears_foreign_bit_witness:
  "\<exists>s'. mi_mem_alloc_aligned (demo_os 0 True) 4096 0 True
       ((demo_state 3 0)\<lparr>others_map := [4]\<rparr>) = Some (0, SIZE_MAX, s') \<and>
     Os_alloc_aligned MI_REGION_SIZE MI_SEGMENT_ALIGN False 0 \<in> set (trace s') \<and>
     map_word (regions s' 0) = 0"
  using rollback_after_retried_claim_clears_foreign_bit
  by (intro exI[of _ "(demo_state 0 0)
             \<lparr>trace := [Map_write 0 4,
                        Os_alloc_aligned MI_REGION_SIZE MI_SEGMENT_ALIGN False 0,
                        Map_write 0 0]\<rparr>"])
     (simp add: demo_state_def)

subsection \<open>The invariant under any interference\<close>

lemma claim_loop_bitidx:
  "claim_loop idx blocks bmask bitidx s = Some (Some b, s') \<Longrightarrow> b < 64"
proof (induction idx blocks bmask bitidx s rule: claim_loop.induct)
  case (1 idx blocks bmask bitidx s)
  let ?mp = "map_word (regions s idx)"
  let ?b = "find_range ?mp bitidx blocks"
  show ?case
  proof (cases "?b > MI_REGION_MAP_BITS - blocks")
    case True
    then have "claim_loop idx blocks bmask bitidx s = Some (None, s)"
      by (subst claim_loop.simps) (simp add: Let_def)
    then show ?thesis using "1.prems" by simp
  next
    case False
    then obtain shifted where sh: "shiftl_c bmask ?b = Some shifted"
      using "1.prems" by (subst (asm) claim_loop.simps) (auto simp: Let_def split: option.splits)
    then have b64: "?b < 64" by (simp add: shiftl_c_def split: if_splits)
    obtain ok s1 where c: "mi_atomic_compare_exchange idx (?mp OR shifted) ?mp s = (ok, s1)" by force
    show ?thesis
    proof (cases ok)
      case True
      then have "claim_loop idx blocks bmask bitidx s = Some (Some ?b, s1)"
        using False sh c by (subst claim_loop.simps) (simp add: Let_def)
      then show ?thesis using "1.prems" b64 by simp
    next
      case nok: False
      then have "claim_loop idx blocks bmask bitidx s = claim_loop idx blocks bmask ?b s1"
        using False sh c by (subst claim_loop.simps) (simp add: Let_def)
      then show ?thesis
        using "1.IH"[OF refl refl False sh refl c[symmetric]] nok "1.prems" by simp
    qed
  qed
qed

lemma block_mask_defined:
  assumes "mi_region_block_mask blocks 0 = Some bmask" and "b < 64"
  shows "\<exists>bm. mi_region_block_mask blocks b = Some bm"
  using assms by (auto simp: mi_region_block_mask_def shiftl_c_def split: if_splits option.splits)

lemma alloc_blocks_ok:
  assumes ok: "state_ok s" and os: "os_ok e" and i: "unat idx < unat MI_REGION_MAX"
    and r: "mi_region_alloc_blocks e idx blocks sz commit p memid s = Some r"
  shows "state_ok (snd (snd (snd r)))"
proof -
  from r obtain bmask x s1 where m0: "mi_region_block_mask blocks 0 = Some bmask"
    and cl: "claim_loop (unat idx) blocks bmask 0 s = Some (x, s1)"
    by (auto simp: mi_region_alloc_blocks_def split: option.splits)
  have same: "same_but_maps s s1" using cl by (rule claim_loop_same)
  have ok1: "state_ok s1"
    by (rule state_ok_frame[OF ok]) (use same in \<open>simp_all add: same_but_maps_def\<close>)
  show ?thesis
  proof (cases x)
    case None
    then have "r = (True, p, memid, s1)" using r m0 cl by (simp add: mi_region_alloc_blocks_def)
    then show ?thesis using ok1 by simp
  next
    case (Some b)
    then have "b < 64" using cl claim_loop_bitidx by blast
    then obtain bm where bm: "mi_region_block_mask blocks b = Some bm"
      using block_mask_defined[OF m0] by blast
    have "mi_region_commit_blocks e idx b blocks sz commit p memid s1 = Some r"
      using r m0 cl Some by (simp add: mi_region_alloc_blocks_def)
    then show ?thesis
      using commit_blocks_spec[OF ok1 os i bm, of sz commit p memid] by auto
  qed
qed

lemma try_alloc_blocks_ok:
  assumes "state_ok s" and "os_ok e" and "unat idx < unat MI_REGION_MAX"
    and "mi_region_try_alloc_blocks e idx blocks sz commit p memid s = Some r"
  shows "state_ok (snd (snd (snd r)))"
proof (cases "map_word (regions s (unat idx)) \<noteq> MI_REGION_MAP_FULL")
  case True
  then have "mi_region_alloc_blocks e idx blocks sz commit p memid s = Some r"
    using assms(4) by (simp add: mi_region_try_alloc_blocks_def Let_def)
  then show ?thesis using alloc_blocks_ok[OF assms(1,2,3)] by blast
next
  case False
  then show ?thesis using assms(1,4) by (auto simp: mi_region_try_alloc_blocks_def Let_def)
qed

lemma first_sweep_ok:
  assumes "state_ok s" and "os_ok e" and "count \<le> MI_REGION_MAX"
    and "first_sweep e blocks sz commit count visited idx p memid s = Some r"
  shows "state_ok (snd (snd (snd r)))"
  using assms
proof (induction e blocks sz commit count visited idx p memid s rule: first_sweep.induct)
  case (1 e blocks sz commit count visited idx p memid s)
  note ok = "1.prems"(1) and os = "1.prems"(2) and cnt = "1.prems"(3) and res = "1.prems"(4)
  show ?case
  proof (cases "visited < count")
    case False
    then have "r = (True, p, memid, s)" using res by (subst (asm) first_sweep.simps) simp
    then show ?thesis using ok by simp
  next
    case True
    then have c0: "count \<noteq> 0" by auto
    have "idx mod count < count" using c0 by (simp add: word_mod_less_divisor word_neq_0_conv)
    then have "idx mod count < MI_REGION_MAX" using cnt by simp
    then have i: "unat (idx mod count) < unat MI_REGION_MAX" by (simp add: word_less_nat_alt)
    obtain t where t: "mi_region_try_alloc_blocks e (idx mod count) blocks sz commit p memid s = Some t"
      using res True by (subst (asm) first_sweep.simps) (auto split: option.splits)
    obtain okay p' memid' s' where teq: "t = (okay, p', memid', s')" by (cases t) auto
    have ok': "state_ok s'" using try_alloc_blocks_ok[OF ok os i t] teq by simp
    show ?thesis
    proof (cases "\<not> okay \<or> p' \<noteq> 0")
      case True
      then have "r = (okay, p', memid', s')"
        using res \<open>visited < count\<close> t teq
        by (subst (asm) first_sweep.simps) (auto split: if_splits)
      then show ?thesis using ok' by simp
    next
      case False
      then have "first_sweep e blocks sz commit count (visited + 1) (idx + 1) p' memid' s' = Some r"
        using res \<open>visited < count\<close> t teq by (subst (asm) first_sweep.simps) simp
      then show ?thesis
        using "1.IH"[OF \<open>visited < count\<close> t[unfolded teq] refl refl refl _ _ ok' os cnt] False
        by simp
    qed
  qed
qed

lemma second_sweep_ok:
  assumes "state_ok s" and "os_ok e"
    and "second_sweep e blocks sz commit idx p memid s = Some r"
  shows "state_ok (snd (snd (snd r)))"
  using assms
proof (induction e blocks sz commit idx p memid s rule: second_sweep.induct)
  case (1 e blocks sz commit idx p memid s)
  note ok = "1.prems"(1) and os = "1.prems"(2) and res = "1.prems"(3)
  show ?case
  proof (cases "idx < MI_REGION_MAX")
    case False
    then have "r = (True, p, memid, s)" using res by (subst (asm) second_sweep.simps) simp
    then show ?thesis using ok by simp
  next
    case True
    then have i: "unat idx < unat MI_REGION_MAX" by (simp add: word_less_nat_alt)
    obtain t where t: "mi_region_try_alloc_blocks e idx blocks sz commit p memid s = Some t"
      using res True by (subst (asm) second_sweep.simps) (auto split: option.splits)
    obtain okay p' memid' s' where teq: "t = (okay, p', memid', s')" by (cases t) auto
    have ok': "state_ok s'" using try_alloc_blocks_ok[OF ok os i t] teq by simp
    show ?thesis
    proof (cases "\<not> okay \<or> p' \<noteq> 0")
      case True
      then have "r = (okay, p', memid', s')"
        using res \<open>idx < MI_REGION_MAX\<close> t teq
        by (subst (asm) second_sweep.simps) (auto split: if_splits)
      then show ?thesis using ok' by simp
    next
      case False
      then have "second_sweep e blocks sz commit (idx + 1) p' memid' s' = Some r"
        using res \<open>idx < MI_REGION_MAX\<close> t teq by (subst (asm) second_sweep.simps) simp
      then show ?thesis
        using "1.IH"[OF \<open>idx < MI_REGION_MAX\<close> t[unfolded teq] refl refl refl _ _ ok' os] False
        by simp
    qed
  qed
qed

lemma os_alloc_ok:
  assumes "state_ok s"
  shows "state_ok (snd (mi_os_alloc_aligned e sz alignment commit s))"
  by (rule state_ok_frame[OF assms]) (simp_all add: mi_os_alloc_aligned_def Let_def)

lemma alloc_aligned_ok:
  assumes ok: "state_ok s" and os: "os_ok e"
    and r: "mi_mem_alloc_aligned e sz alignment commit s = Some (p, memid, s')"
  shows "state_ok s'"
proof (cases "sz > MI_REGION_MAX_ALLOC_SIZE \<or> alignment > MI_SEGMENT_ALIGN")
  case True
  then have "\<exists>csz. s' = snd (mi_os_alloc_aligned e csz alignment True s)"
    using r
    by (auto simp: mi_mem_alloc_aligned_def Let_def split: option.splits prod.splits)
       (metis snd_conv)+
  then show ?thesis using os_alloc_ok[OF ok] by auto
next
  case False
  then obtain sz' where up: "mi_align_up sz (os_page_size e) = Some sz'"
    using r by (auto simp: mi_mem_alloc_aligned_def Let_def split: option.splits)
  let ?blocks = "mi_region_block_count sz'"
  define s0 where "s0 = others_increment s"
  have ok0: "state_ok s0" unfolding s0_def using ok by (rule others_increment_ok)
  have cnt: "regions_count s0 \<le> MI_REGION_MAX" using ok0 by (rule regions_count_le)
  have rd: "mi_atomic_read_count s = (regions_count s0, s0)"
    by (simp add: mi_atomic_read_count_def Let_def s0_def)
  obtain r1 where r1: "first_sweep e ?blocks sz' commit (regions_count s0) 0 (region_next_idx s0) 0 SIZE_MAX s0 = Some r1"
    using r False up rd by (auto simp: mi_mem_alloc_aligned_def Let_def split: option.splits)
  obtain ok1 p1 memid1 s1 where r1eq: "r1 = (ok1, p1, memid1, s1)" by (cases r1) auto
  have s1ok: "state_ok s1" using first_sweep_ok[OF ok0 os cnt r1] r1eq by simp
  show ?thesis
  proof (cases "\<not> ok1")
    case True
    then have "s' = s1" using r False up rd r1 r1eq by (simp add: mi_mem_alloc_aligned_def Let_def)
    then show ?thesis using s1ok by simp
  next
    case ok1: False
    show ?thesis
    proof (cases "p1 = 0")
      case p1: False
      then have "s' = s1" using r False up rd r1 r1eq ok1 by (simp add: mi_mem_alloc_aligned_def Let_def)
      then show ?thesis using s1ok by simp
    next
      case p1: True
      obtain r2 where r2: "second_sweep e ?blocks sz' commit (regions_count s0) p1 memid1 s1 = Some r2"
        using r False up rd r1 r1eq ok1 p1
        by (auto simp: mi_mem_alloc_aligned_def Let_def split: option.splits)
      obtain ok2 p2 memid2 s2 where r2eq: "r2 = (ok2, p2, memid2, s2)" by (cases r2) auto
      have s2ok: "state_ok s2" using second_sweep_ok[OF s1ok os r2] r2eq by simp
      have "s' = s2 \<or> s' = snd (mi_os_alloc_aligned e sz' alignment commit s2)"
        using r False up rd r1 r1eq ok1 p1 r2 r2eq
        by (auto simp: mi_mem_alloc_aligned_def Let_def split: if_splits prod.splits)
      then show ?thesis using s2ok os_alloc_ok[OF s2ok] by auto
    qed
  qed
qed

lemma free_ok:
  assumes ok: "state_ok s" and r: "mi_mem_free e p sz memid s = Some s'"
  shows "state_ok s'"
proof -
  have "s' = s \<or> s' = mi_os_free p sz s \<or>
        (\<exists>i bm sz'. s' = unclaim i bm (mi_os_reset p sz' s) \<or> s' = unclaim i bm (mi_os_decommit p sz' s))"
    using r by (auto simp: mi_mem_free_def Let_def split: if_splits option.splits)
  then show ?thesis
  proof (elim disjE exE)
    assume "s' = s" then show ?thesis using ok by simp
  next
    assume "s' = mi_os_free p sz s"
    then show ?thesis by (intro state_ok_frame[OF ok]) (simp_all add: mi_os_free_def)
  next
    fix i bm sz' assume s': "s' = unclaim i bm (mi_os_reset p sz' s)"
    have "same_but_maps (mi_os_reset p sz' s) s'" unfolding s' by (rule unclaim_same)
    then show ?thesis
      by (intro state_ok_frame[OF ok]) (simp_all add: same_but_maps_def mi_os_reset_def)
  next
    fix i bm sz' assume s': "s' = unclaim i bm (mi_os_decommit p sz' s)"
    have "same_but_maps (mi_os_decommit p sz' s) s'" unfolding s' by (rule unclaim_same)
    then show ?thesis
      by (intro state_ok_frame[OF ok]) (simp_all add: same_but_maps_def mi_os_decommit_def)
  qed
qed


text \<open>
  Two runs for the invariant. In the first the allocation loses the race for the
  \<^verbatim>\<open>start\<close> of region 0 against a thread that publishes \<open>0x80000000\<close> and has not yet
  incremented \<^verbatim>\<open>regions_count\<close>: the allocation returns memory of the other thread's
  region, and the counter is still 0 while one \<^verbatim>\<open>start\<close> is published. The second is this
  thread's own publication, before its increment.
\<close>

lemma demo_alloc_lost_race:
  "mi_mem_alloc_aligned (demo_os 0x40400000 True) 5000000 0 True
       ((demo_state 0 0)\<lparr>others_start := [0x80000000], others_count := [0, 1]\<rparr>) =
     Some (0x80000000, 0,
           (demo_state 3 0x80000000)
             \<lparr>regions_count := 0, others_pending := 1, others_count := [1],
              trace := [Map_write 0 3,
                        Os_alloc_aligned MI_REGION_SIZE MI_SEGMENT_ALIGN False 0x40400000,
                        Os_free 0x40400000 MI_REGION_SIZE,
                        Os_commit 0x80000000 0x600000 True]\<rparr>)"
  by (simp add: alloc_defs search_simps demo_defs const_simps atomic_simps Let_def fun_eq_iff)

lemma demo_lost_race_ok:
  "state_ok ((demo_state 0 0)\<lparr>others_start := [0x80000000], others_count := [0, 1]\<rparr>)"
  by (simp add: state_ok_def started_def demo_state_def region_ptr_ok_def const_defs)

lemma demo_publish:
  "mi_atomic_compare_exchange_ptr 0 0x40400000 0 (demo_state 3 0) =
     (True, (demo_state 3 0x40400000)\<lparr>regions_count := 0\<rparr>)"
  by (simp add: atomic_simps demo_defs fun_eq_iff)

text \<open>
  C4 (as amended). \<open>state_ok\<close> is an invariant of the layer: it holds of the
  zero-initialised globals, and an allocation, a free, and the publication and the
  increment of another thread preserve it, whatever the other threads do to the maps, as
  long as the OS returns segment-aligned reservations and the other threads publish such
  reservations. In a state that satisfies it \<^verbatim>\<open>regions_count\<close> is at most
  \<^verbatim>\<open>MI_REGION_MAX\<close>, and every \<^verbatim>\<open>start\<close> that is set is aligned to \<^verbatim>\<open>MI_SEGMENT_ALIGN\<close>, the
  alignment the code asks the OS for. \<^verbatim>\<open>regions_count\<close> lags behind the published starts
  (by the increments that are pending); between this thread's
  publication of a \<^verbatim>\<open>start\<close> (the compare-and-swap of line 130) and its increment
  (line 132) the counter is below \<^verbatim>\<open>MI_REGION_MAX\<close>, and the increment restores the
  invariant.
\<close>

theorem regions_invariant:
  "((\<forall>q \<in> set qs. q = 0 \<or> region_ptr_ok q) \<longrightarrow>
      state_ok \<lparr>regions = (\<lambda>i. \<lparr>map_word = 0, start = 0\<rparr>), regions_count = 0,
                region_next_idx = 0, trace = [], others_map = ms, others_start = qs,
                others_pending = 0, others_count = ks\<rparr>) \<and>
   (state_ok s \<and> os_ok e \<and>
      mi_mem_alloc_aligned e sz alignment commit s = Some (p, memid, s') \<longrightarrow> state_ok s') \<and>
   (state_ok s \<and> mi_mem_free e p sz memid s = Some s' \<longrightarrow> state_ok s') \<and>
   (state_ok s \<longrightarrow> state_ok (others_increment s)) \<and>
   (state_ok s \<and> i < unat MI_REGION_MAX \<and> start (regions s i) = 0 \<and> region_ptr_ok t \<longrightarrow>
      state_ok (s\<lparr>regions := (regions s)(i := (regions s i)\<lparr>start := t\<rparr>),
                  others_pending := others_pending s + 1\<rparr>)) \<and>
   (state_ok s \<and> i < unat MI_REGION_MAX \<and> region_ptr_ok r \<and>
      mi_atomic_compare_exchange_ptr i r 0 s = (True, sb) \<longrightarrow>
      regions_count sb < MI_REGION_MAX \<and>
      (\<forall>j. start (regions sb j) \<noteq> 0 \<longrightarrow> start (regions sb j) mod MI_SEGMENT_ALIGN = 0) \<and>
      state_ok (mi_atomic_increment sb)) \<and>
   (state_ok s \<longrightarrow>
      regions_count s \<le> MI_REGION_MAX \<and>
      (\<forall>j. start (regions s j) \<noteq> 0 \<longrightarrow> start (regions s j) mod MI_SEGMENT_ALIGN = 0))"
proof (intro conjI impI)
  assume "\<forall>q \<in> set qs. q = 0 \<or> region_ptr_ok q"
  then show "state_ok \<lparr>regions = (\<lambda>i. \<lparr>map_word = 0, start = 0\<rparr>), regions_count = 0,
                region_next_idx = 0, trace = [], others_map = ms, others_start = qs,
                others_pending = 0, others_count = ks\<rparr>"
    by (simp add: state_ok_def started_def)
next
  assume "state_ok s \<and> os_ok e \<and>
      mi_mem_alloc_aligned e sz alignment commit s = Some (p, memid, s')"
  then show "state_ok s'" using alloc_aligned_ok by blast
next
  assume "state_ok s \<and> mi_mem_free e p sz memid s = Some s'"
  then show "state_ok s'" using free_ok by blast
next
  assume "state_ok s"
  then show "state_ok (others_increment s)" by (rule others_increment_ok)
next
  assume "state_ok s \<and> i < unat MI_REGION_MAX \<and> start (regions s i) = 0 \<and> region_ptr_ok t"
  then have "state_ok (s\<lparr>regions := (regions s)(i := (regions s i)\<lparr>start := t\<rparr>),
                  others_pending := others_pending s + 1, others_start := others_start s\<rparr>)"
    by (intro publish_start_other) auto
  then show "state_ok (s\<lparr>regions := (regions s)(i := (regions s i)\<lparr>start := t\<rparr>),
                  others_pending := others_pending s + 1\<rparr>)"
    by (simp add: state_ok_def started_def)
next
  assume a: "state_ok s \<and> i < unat MI_REGION_MAX \<and> region_ptr_ok r \<and>
      mi_atomic_compare_exchange_ptr i r 0 s = (True, sb)"
  then have "start (regions s i) = 0" using compare_exchange_ptr_won by blast
  then have lag: "publication_lags sb"
    using a compare_exchange_ptr_publishes(1)[of s i r True sb] by simp
  show "regions_count sb < MI_REGION_MAX" using lag by (rule publication_lags_count)
  show "\<forall>j. start (regions sb j) \<noteq> 0 \<longrightarrow> start (regions sb j) mod MI_SEGMENT_ALIGN = 0"
    using lag by (auto simp: publication_lags_def region_ptr_ok_def)
  show "state_ok (mi_atomic_increment sb)" using lag by (rule increment_ok)
next
  assume ok: "state_ok s"
  show "regions_count s \<le> MI_REGION_MAX" using ok by (rule regions_count_le)
  show "\<forall>j. start (regions s j) \<noteq> 0 \<longrightarrow> start (regions s j) mod MI_SEGMENT_ALIGN = 0"
    using ok by (auto simp: state_ok_def region_ptr_ok_def)
qed

theorem regions_invariant_witness:
  "state_ok ((demo_state 0 0)\<lparr>others_start := [0x80000000], others_count := [0, 1]\<rparr>) \<and>
   os_ok (demo_os 0x40400000 True) \<and>
   mi_mem_alloc_aligned (demo_os 0x40400000 True) 5000000 0 True
       ((demo_state 0 0)\<lparr>others_start := [0x80000000], others_count := [0, 1]\<rparr>) =
     Some (0x80000000, 0,
           (demo_state 3 0x80000000)
             \<lparr>regions_count := 0, others_pending := 1, others_count := [1],
              trace := [Map_write 0 3,
                        Os_alloc_aligned MI_REGION_SIZE MI_SEGMENT_ALIGN False 0x40400000,
                        Os_free 0x40400000 MI_REGION_SIZE,
                        Os_commit 0x80000000 0x600000 True]\<rparr>) \<and>
   state_ok ((demo_state 3 0x80000000)
             \<lparr>regions_count := 0, others_pending := 1, others_count := [1],
              trace := [Map_write 0 3,
                        Os_alloc_aligned MI_REGION_SIZE MI_SEGMENT_ALIGN False 0x40400000,
                        Os_free 0x40400000 MI_REGION_SIZE,
                        Os_commit 0x80000000 0x600000 True]\<rparr>) \<and>
   (0::size_t) \<le> MI_REGION_MAX \<and> (0x80000000::uintptr) mod MI_SEGMENT_ALIGN = 0 \<and>
   state_ok (demo_state 3 0) \<and> 0 < unat MI_REGION_MAX \<and> region_ptr_ok 0x40400000 \<and>
   mi_atomic_compare_exchange_ptr 0 0x40400000 0 (demo_state 3 0) =
     (True, (demo_state 3 0x40400000)\<lparr>regions_count := 0\<rparr>) \<and>
   (0::size_t) < MI_REGION_MAX \<and>
   state_ok (mi_atomic_increment ((demo_state 3 0x40400000)\<lparr>regions_count := 0\<rparr>)) \<and>
   regions_count (mi_atomic_increment ((demo_state 3 0x40400000)\<lparr>regions_count := 0\<rparr>)) = 1"
proof -
  have h1: "state_ok ((demo_state 0 0)\<lparr>others_start := [0x80000000], others_count := [0, 1]\<rparr>)"
    by (rule demo_lost_race_ok)
  have h2: "os_ok (demo_os 0x40400000 True)" by (simp add: demo_os_ok demo_ptr_ok)
  have h3: "state_ok (demo_state 3 0)" by (simp add: demo_state_ok)
  have h4: "0 < unat MI_REGION_MAX" by (simp add: const_defs)
  have a: "state_ok ((demo_state 3 0x80000000)
             \<lparr>regions_count := 0, others_pending := 1, others_count := [1],
              trace := [Map_write 0 3,
                        Os_alloc_aligned MI_REGION_SIZE MI_SEGMENT_ALIGN False 0x40400000,
                        Os_free 0x40400000 MI_REGION_SIZE,
                        Os_commit 0x80000000 0x600000 True]\<rparr>)"
    using regions_invariant [where s = "(demo_state 0 0)\<lparr>others_start := [0x80000000], others_count := [0, 1]\<rparr>"
      and e = "demo_os 0x40400000 True" and sz = 5000000 and alignment = 0 and commit = True
      and p = "0x80000000" and memid = 0
      and s' = "(demo_state 3 0x80000000)
             \<lparr>regions_count := 0, others_pending := 1, others_count := [1],
              trace := [Map_write 0 3,
                        Os_alloc_aligned MI_REGION_SIZE MI_SEGMENT_ALIGN False 0x40400000,
                        Os_free 0x40400000 MI_REGION_SIZE,
                        Os_commit 0x80000000 0x600000 True]\<rparr>"]
      h1 h2 demo_alloc_lost_race by blast
  have b: "state_ok (mi_atomic_increment ((demo_state 3 0x40400000)\<lparr>regions_count := 0\<rparr>))"
    using regions_invariant [where s = "demo_state 3 0" and i = 0 and r = "0x40400000"
      and sb = "(demo_state 3 0x40400000)\<lparr>regions_count := 0\<rparr>"]
      h3 h4 demo_ptr_ok demo_publish by blast
  have c: "regions_count (mi_atomic_increment ((demo_state 3 0x40400000)\<lparr>regions_count := 0\<rparr>)) = 1"
    by (simp add: atomic_simps demo_defs)
  show ?thesis using h1 h2 h3 h4 demo_alloc_lost_race demo_ptr_ok demo_publish a b c
    by (simp add: const_defs)
qed

text \<open>
  C4 as the spec states it asks for a \<^verbatim>\<open>start\<close> aligned to \<^verbatim>\<open>MI_REGION_SIZE\<close>. The code
  reserves \<^verbatim>\<open>MI_REGION_SIZE\<close> bytes with the alignment \<^verbatim>\<open>MI_SEGMENT_ALIGN\<close>, so an OS that
  answers with the segment-aligned address \<open>0x40400000\<close> gives region 0 a \<^verbatim>\<open>start\<close> that is
  not a multiple of \<^verbatim>\<open>MI_REGION_SIZE\<close>.
\<close>

theorem region_start_alignment_counterexample:
  "os_ok (demo_os 0x40400000 True) \<and> state_ok (demo_state 0 0) \<and>
   mi_mem_alloc_aligned (demo_os 0x40400000 True) 5000000 0 True (demo_state 0 0) =
     Some (0x40400000, 0,
           (demo_state 3 0x40400000)
             \<lparr>trace := [Map_write 0 3,
                        Os_alloc_aligned MI_REGION_SIZE MI_SEGMENT_ALIGN False 0x40400000,
                        Os_commit 0x40400000 0x600000 True]\<rparr>) \<and>
   start (regions ((demo_state 3 0x40400000)
             \<lparr>trace := [Map_write 0 3,
                        Os_alloc_aligned MI_REGION_SIZE MI_SEGMENT_ALIGN False 0x40400000,
                        Os_commit 0x40400000 0x600000 True]\<rparr>) 0) = 0x40400000 \<and>
   (0x40400000::uintptr) \<noteq> 0 \<and> (0x40400000::uintptr) mod MI_REGION_SIZE \<noteq> 0"
  using demo_alloc by (simp add: demo_os_ok demo_ptr_ok demo_state_ok) (simp add: demo_state_def const_defs)

subsection \<open>A failed commit under any interference\<close>

lemma no_commits_nil: "no_commits []"
  by (simp add: no_commits_def)

lemma no_commits_append: "no_commits evs1 \<Longrightarrow> no_commits evs2 \<Longrightarrow> no_commits (evs1 @ evs2)"
  by (auto simp: no_commits_def)

lemma commits_only_append:
  "no_commits evs1 \<Longrightarrow> commits_only evs2 p \<Longrightarrow> commits_only (evs1 @ evs2) p"
  by (auto simp: no_commits_def commits_only_def)

lemma benign_commits_only: "benign evs p \<Longrightarrow> commits_only evs p"
  unfolding commits_only_def using benign_commit by blast

lemma tried_same:
  "trace s' = trace s @ evs \<Longrightarrow> no_commits evs \<Longrightarrow> tried blocks p memid s (okay, p, memid, s')"
  unfolding tried_def by blast

lemma tried_held:
  "trace s' = trace s @ evs \<Longrightarrow> claim_held blocks p' memid' s' \<Longrightarrow> commits_only evs p' \<Longrightarrow>
   tried blocks p memid s (True, p', memid', s')"
  unfolding tried_def by blast

lemma tried_trans:
  assumes a: "trace s1 = trace s @ evs1" "no_commits evs1"
    and b: "tried blocks p memid s1 r"
  shows "tried blocks p memid s r"
proof -
  from b obtain okay p' memid' s' evs where r: "r = (okay, p', memid', s')"
    and tr: "trace s' = trace s1 @ evs"
    and c: "p' = p \<and> memid' = memid \<and> no_commits evs \<or>
            okay \<and> claim_held blocks p' memid' s' \<and> commits_only evs p'"
    unfolding tried_def by blast
  have tr': "trace s' = trace s @ (evs1 @ evs)" using tr a(1) by simp
  from c show ?thesis
  proof
    assume "p' = p \<and> memid' = memid \<and> no_commits evs"
    then show ?thesis using r tr' no_commits_append[OF a(2)] unfolding tried_def by blast
  next
    assume "okay \<and> claim_held blocks p' memid' s' \<and> commits_only evs p'"
    then show ?thesis using r tr' commits_only_append[OF a(2)] unfolding tried_def by blast
  qed
qed

lemma compare_exchange_trace:
  assumes "mi_atomic_compare_exchange idx exchange compare s = (ok, s1)"
  shows "if ok then trace s1 = trace s @ [Map_write idx exchange] \<and>
                    map_word (regions s1 idx) = exchange
         else trace s1 = trace s"
  using assms
  by (auto simp: mi_atomic_compare_exchange_def others_write_map_def Let_def
           split: if_splits list.splits)

lemma claim_loop_any:
  assumes "claim_loop idx blocks bmask bitidx s = Some (x, s1)"
  shows "case x of
           None \<Rightarrow> trace s1 = trace s
         | Some b \<Rightarrow> \<exists>w. trace s1 = trace s @ [Map_write idx w] \<and> b < 64 \<and>
                        map_word (regions s1 idx) AND push_bit (unat b) bmask = push_bit (unat b) bmask"
  using assms
proof (induction idx blocks bmask bitidx s rule: claim_loop.induct)
  case (1 idx blocks bmask bitidx s)
  let ?mp = "map_word (regions s idx)"
  let ?b = "find_range ?mp bitidx blocks"
  show ?case
  proof (cases "?b > MI_REGION_MAP_BITS - blocks")
    case True
    then have "claim_loop idx blocks bmask bitidx s = Some (None, s)"
      by (subst claim_loop.simps) (simp add: Let_def)
    then show ?thesis using "1.prems" by auto
  next
    case False
    then obtain shifted where sh: "shiftl_c bmask ?b = Some shifted"
      using "1.prems" by (subst (asm) claim_loop.simps) (auto simp: Let_def split: option.splits)
    then have b64: "?b < 64" and shd: "shifted = push_bit (unat ?b) bmask"
      by (auto simp: shiftl_c_def split: if_splits)
    obtain ok s' where c: "mi_atomic_compare_exchange idx (?mp OR shifted) ?mp s = (ok, s')" by force
    note ct = compare_exchange_trace[OF c]
    show ?thesis
    proof (cases ok)
      case True
      then have "claim_loop idx blocks bmask bitidx s = Some (Some ?b, s')"
        using False sh c by (subst claim_loop.simps) (simp add: Let_def)
      then have x: "x = Some ?b" and s1: "s1 = s'" using "1.prems" by simp_all
      have "map_word (regions s' idx) AND shifted = shifted"
        using ct True by (simp add: or_and_absorb)
      then show ?thesis using x s1 ct True b64 shd by auto
    next
      case nok: False
      then have "claim_loop idx blocks bmask bitidx s = claim_loop idx blocks bmask ?b s'"
        using False sh c by (subst claim_loop.simps) (simp add: Let_def)
      then have "claim_loop idx blocks bmask ?b s' = Some (x, s1)" using "1.prems" by simp
      from "1.IH"[OF refl refl False sh refl c[symmetric] refl nok this]
      show ?thesis using ct nok by (simp split: option.splits)
    qed
  qed
qed

lemma alloc_blocks_any:
  assumes ok: "state_ok s" and os: "os_ok e" and i: "unat idx < unat MI_REGION_MAX"
    and B: "unat blocks < 64"
    and r: "mi_region_alloc_blocks e idx blocks sz commit p memid s = Some r"
  shows "tried blocks p memid s r"
proof -
  have blt: "blocks < MI_REGION_MAP_BITS" using B by (simp add: const_defs word_less_nat_alt)
  have m0: "mi_region_block_mask blocks 0 = Some (mask (unat blocks))"
    using block_mask_Some[OF blt, of 0] by (simp add: const_defs)
  from r obtain x s1 where cl: "claim_loop (unat idx) blocks (mask (unat blocks)) 0 s = Some (x, s1)"
    using m0 by (auto simp: mi_region_alloc_blocks_def split: option.splits)
  have same: "same_but_maps s s1" using cl by (rule claim_loop_same)
  have ok1: "state_ok s1"
    by (rule state_ok_frame[OF ok]) (use same in \<open>simp_all add: same_but_maps_def\<close>)
  note ca = claim_loop_any[OF cl]
  show ?thesis
  proof (cases x)
    case None
    then have "r = (True, p, memid, s1)" using r m0 cl by (simp add: mi_region_alloc_blocks_def)
    moreover have "trace s1 = trace s @ []" using ca None by simp
    ultimately show ?thesis using tried_same[OF _ no_commits_nil] by blast
  next
    case (Some b)
    then obtain w where tr1: "trace s1 = trace s @ [Map_write (unat idx) w]" and b64: "b < 64"
      and held1: "map_word (regions s1 (unat idx)) AND push_bit (unat b) (mask (unat blocks)) =
                  push_bit (unat b) (mask (unat blocks))"
      using ca by auto
    have ub: "unat b < 64" using b64 by (simp add: word_less_nat_alt)
    have nc1: "no_commits [Map_write (unat idx) w]" by (simp add: no_commits_def)
    obtain bm where bm: "mi_region_block_mask blocks b = Some bm"
      using block_mask_defined[OF m0 b64] by blast
    have cb: "mi_region_commit_blocks e idx b blocks sz commit p memid s1 = Some r"
      using r m0 cl Some by (simp add: mi_region_alloc_blocks_def)
    from commit_blocks_spec[OF ok1 os i bm, of sz commit p memid] cb
    obtain okay p' memid' s' where req: "r = (okay, p', memid', s')" and ok': "state_ok s'"
      and c: "if okay then
              p' = start (regions s' (unat idx)) + b * MI_SEGMENT_SIZE \<and>
              start (regions s' (unat idx)) \<noteq> 0 \<and>
              memid' = idx * MI_REGION_MAP_BITS + b \<and>
              (\<forall>j. map_word (regions s' j) = map_word (regions s1 j)) \<and>
              (\<forall>j. j \<noteq> unat idx \<longrightarrow> regions s' j = regions s1 j) \<and>
              others_map s' = others_map s1 \<and>
              (\<exists>evs. trace s' = trace s1 @ evs \<and> benign evs p')
            else
              p' = p \<and> memid' = memid \<and>
              s' = unclaim (unat idx) bm
                     (s1\<lparr>trace := trace s1 @
                        [Os_alloc_aligned MI_REGION_SIZE MI_SEGMENT_ALIGN (eager_region_commit e) 0]\<rparr>)"
      by auto
    show ?thesis
    proof (cases okay)
      case True
      then obtain evs where p': "p' = start (regions s' (unat idx)) + b * MI_SEGMENT_SIZE"
        and st: "start (regions s' (unat idx)) \<noteq> 0"
        and mid: "memid' = idx * MI_REGION_MAP_BITS + b"
        and maps: "\<forall>j. map_word (regions s' j) = map_word (regions s1 j)"
        and tr: "trace s' = trace s1 @ evs" and ben: "benign evs p'"
        using c by auto
      have "region_ptr_ok (start (regions s' (unat idx)))" using ok' st by (auto simp: state_ok_def)
      then have pn: "p' \<noteq> 0" unfolding p' using ub by (rule block_ptr_nonzero)
      have held: "claim_held blocks p' memid' s'"
        unfolding claim_held_def using i ub mid pn p' held1 maps by auto
      have co: "commits_only ([Map_write (unat idx) w] @ evs) p'"
        using nc1 benign_commits_only[OF ben] by (rule commits_only_append)
      have "trace s' = trace s @ ([Map_write (unat idx) w] @ evs)" using tr tr1 by simp
      from tried_held[OF this held co] show ?thesis using req True by simp
    next
      case False
      then have pp: "p' = p" "memid' = memid"
        and s': "s' = unclaim (unat idx) bm
                     (s1\<lparr>trace := trace s1 @
                        [Os_alloc_aligned MI_REGION_SIZE MI_SEGMENT_ALIGN (eager_region_commit e) 0]\<rparr>)"
        using c by auto
      obtain m where "trace s' = trace s @ [Map_write (unat idx) w,
           Os_alloc_aligned MI_REGION_SIZE MI_SEGMENT_ALIGN (eager_region_commit e) 0,
           Map_write (unat idx) (m AND NOT bm)]"
        using unclaim_trace[of "unat idx" bm "s1\<lparr>trace := trace s1 @
                        [Os_alloc_aligned MI_REGION_SIZE MI_SEGMENT_ALIGN (eager_region_commit e) 0]\<rparr>"]
          s' tr1 by auto
      moreover have "no_commits [Map_write (unat idx) w,
           Os_alloc_aligned MI_REGION_SIZE MI_SEGMENT_ALIGN (eager_region_commit e) 0,
           Map_write (unat idx) (m AND NOT bm)]" by (simp add: no_commits_def)
      ultimately show ?thesis using req pp tried_same by blast
    qed
  qed
qed

lemma try_alloc_blocks_any:
  assumes "state_ok s" and "os_ok e" and "unat idx < unat MI_REGION_MAX" and "unat blocks < 64"
    and "mi_region_try_alloc_blocks e idx blocks sz commit p memid s = Some r"
  shows "tried blocks p memid s r"
proof (cases "map_word (regions s (unat idx)) \<noteq> MI_REGION_MAP_FULL")
  case True
  then have "mi_region_alloc_blocks e idx blocks sz commit p memid s = Some r"
    using assms(5) by (simp add: mi_region_try_alloc_blocks_def Let_def)
  then show ?thesis using alloc_blocks_any[OF assms(1-4)] by blast
next
  case False
  then have "r = (True, p, memid, s)"
    using assms(5) by (auto simp: mi_region_try_alloc_blocks_def Let_def)
  moreover have "trace s = trace s @ []" by simp
  ultimately show ?thesis using tried_same[OF _ no_commits_nil] by blast
qed


lemma first_sweep_any:
  assumes "state_ok s" and "os_ok e" and "unat blocks < 64" and "count \<le> MI_REGION_MAX"
    and "first_sweep e blocks sz commit count visited idx p memid s = Some r"
  shows "tried blocks p memid s r"
  using assms
proof (induction e blocks sz commit count visited idx p memid s rule: first_sweep.induct)
  case (1 e blocks sz commit count visited idx p memid s)
  note ok = "1.prems"(1) and os = "1.prems"(2) and B = "1.prems"(3) and cnt = "1.prems"(4)
    and res = "1.prems"(5)
  show ?case
  proof (cases "visited < count")
    case False
    then have "r = (True, p, memid, s)" using res by (subst (asm) first_sweep.simps) simp
    moreover have "trace s = trace s @ []" by simp
    ultimately show ?thesis using tried_same[OF _ no_commits_nil] by blast
  next
    case True
    then have c0: "count \<noteq> 0" by auto
    have "idx mod count < count" using c0 by (simp add: word_mod_less_divisor word_neq_0_conv)
    then have "idx mod count < MI_REGION_MAX" using cnt by simp
    then have i: "unat (idx mod count) < unat MI_REGION_MAX" by (simp add: word_less_nat_alt)
    obtain t where t: "mi_region_try_alloc_blocks e (idx mod count) blocks sz commit p memid s = Some t"
      using res True by (subst (asm) first_sweep.simps) (auto split: option.splits)
    obtain okay p' memid' s' where teq: "t = (okay, p', memid', s')" by (cases t) auto
    have ok': "state_ok s'" using try_alloc_blocks_ok[OF ok os i t] teq by simp
    have tt: "tried blocks p memid s t" using try_alloc_blocks_any[OF ok os i B t] .
    show ?thesis
    proof (cases "\<not> okay \<or> p' \<noteq> 0")
      case True
      then have "r = t"
        using res \<open>visited < count\<close> t teq
        by (subst (asm) first_sweep.simps) (auto split: if_splits)
      then show ?thesis using tt by simp
    next
      case False
      then have rec: "first_sweep e blocks sz commit count (visited + 1) (idx + 1) p' memid' s' = Some r"
        using res \<open>visited < count\<close> t teq by (subst (asm) first_sweep.simps) simp
      have ih: "tried blocks p' memid' s' r"
        using "1.IH"[OF \<open>visited < count\<close> t[unfolded teq] refl refl refl _ _ ok' os B cnt rec] False
        by simp
      from tt teq False obtain evs where "trace s' = trace s @ evs" "no_commits evs"
        "p' = p" "memid' = memid"
        unfolding tried_def claim_held_def by auto
      then show ?thesis using tried_trans[OF _ _ ih] by simp
    qed
  qed
qed

lemma second_sweep_any:
  assumes "state_ok s" and "os_ok e" and "unat blocks < 64"
    and "second_sweep e blocks sz commit idx p memid s = Some r"
  shows "tried blocks p memid s r"
  using assms
proof (induction e blocks sz commit idx p memid s rule: second_sweep.induct)
  case (1 e blocks sz commit idx p memid s)
  note ok = "1.prems"(1) and os = "1.prems"(2) and B = "1.prems"(3) and res = "1.prems"(4)
  show ?case
  proof (cases "idx < MI_REGION_MAX")
    case False
    then have "r = (True, p, memid, s)" using res by (subst (asm) second_sweep.simps) simp
    moreover have "trace s = trace s @ []" by simp
    ultimately show ?thesis using tried_same[OF _ no_commits_nil] by blast
  next
    case True
    then have i: "unat idx < unat MI_REGION_MAX" by (simp add: word_less_nat_alt)
    obtain t where t: "mi_region_try_alloc_blocks e idx blocks sz commit p memid s = Some t"
      using res True by (subst (asm) second_sweep.simps) (auto split: option.splits)
    obtain okay p' memid' s' where teq: "t = (okay, p', memid', s')" by (cases t) auto
    have ok': "state_ok s'" using try_alloc_blocks_ok[OF ok os i t] teq by simp
    have tt: "tried blocks p memid s t" using try_alloc_blocks_any[OF ok os i B t] .
    show ?thesis
    proof (cases "\<not> okay \<or> p' \<noteq> 0")
      case True
      then have "r = t"
        using res \<open>idx < MI_REGION_MAX\<close> t teq
        by (subst (asm) second_sweep.simps) (auto split: if_splits)
      then show ?thesis using tt by simp
    next
      case False
      then have rec: "second_sweep e blocks sz commit (idx + 1) p' memid' s' = Some r"
        using res \<open>idx < MI_REGION_MAX\<close> t teq by (subst (asm) second_sweep.simps) simp
      have ih: "tried blocks p' memid' s' r"
        using "1.IH"[OF \<open>idx < MI_REGION_MAX\<close> t[unfolded teq] refl refl refl _ _ ok' os B rec] False
        by simp
      from tt teq False obtain evs where "trace s' = trace s @ evs" "no_commits evs"
        "p' = p" "memid' = memid"
        unfolding tried_def claim_held_def by auto
      then show ?thesis using tried_trans[OF _ _ ih] by simp
    qed
  qed
qed

lemma alloc_aligned_any:
  assumes ok: "state_ok s" and os: "os_ok e"
    and sz: "sz \<noteq> 0" "sz \<le> MI_REGION_MAX_ALLOC_SIZE" and al: "alignment \<le> MI_SEGMENT_ALIGN"
    and r: "mi_mem_alloc_aligned e sz alignment commit s = Some (p, memid, s')"
  shows "\<exists>sz' evs. mi_align_up sz (os_page_size e) = Some sz' \<and> trace s' = trace s @ evs \<and>
           (no_commits evs \<or>
            claim_held (mi_region_block_count sz') p memid s' \<and> commits_only evs p)"
proof -
  have pg: "os_page_size e \<noteq> 0" "MI_SEGMENT_SIZE mod os_page_size e = 0"
    using os by (simp_all add: os_ok_def)
  obtain sz' where up: "mi_align_up sz (os_page_size e) = Some sz'"
    and ge: "sz \<le> sz'" and le: "sz' \<le> MI_REGION_MAX_ALLOC_SIZE"
    using align_up_bound[OF pg sz(2)] by blast
  have nz: "sz' \<noteq> 0" using ge sz(1) by auto
  let ?blocks = "mi_region_block_count sz'"
  have B: "unat ?blocks < 64" using block_count_range[OF nz le] by simp
  have region_path: "\<not> (sz > MI_REGION_MAX_ALLOC_SIZE \<or> alignment > MI_SEGMENT_ALIGN)"
    using sz(2) al by (simp add: not_less)
  define s0 where "s0 = others_increment s"
  have ok0: "state_ok s0" unfolding s0_def using ok by (rule others_increment_ok)
  have tr0: "trace s0 = trace s" by (simp add: s0_def others_increment_frame)
  have cnt: "regions_count s0 \<le> MI_REGION_MAX" using ok0 by (rule regions_count_le)
  have rd: "mi_atomic_read_count s = (regions_count s0, s0)"
    by (simp add: mi_atomic_read_count_def Let_def s0_def)
  obtain r1 where r1: "first_sweep e ?blocks sz' commit (regions_count s0) 0 (region_next_idx s0) 0 SIZE_MAX s0 = Some r1"
    using r region_path up rd by (auto simp: mi_mem_alloc_aligned_def Let_def split: option.splits)
  obtain ok1 p1 memid1 s1 where r1eq: "r1 = (ok1, p1, memid1, s1)" by (cases r1) auto
  have s1ok: "state_ok s1" using first_sweep_ok[OF ok0 os cnt r1] r1eq by simp
  have t1: "tried ?blocks 0 SIZE_MAX s0 r1" using first_sweep_any[OF ok0 os B cnt r1] .
  have fin: "tried ?blocks 0 SIZE_MAX s0 (okay, p, memid, s') \<Longrightarrow> ?thesis" for okay
    using up unfolding tried_def tr0 by auto
  show ?thesis
  proof (cases "\<not> ok1 \<or> p1 \<noteq> 0")
    case True
    then have "p = (if ok1 then p1 else 0) \<and> memid = memid1 \<and> s' = s1"
      using r region_path up rd r1 r1eq by (auto simp: mi_mem_alloc_aligned_def Let_def)
    moreover have "\<not> ok1 \<Longrightarrow> p1 = 0" using t1 r1eq unfolding tried_def by auto
    ultimately have "(p, memid, s') = (p1, memid1, s1)" by auto
    then show ?thesis using t1 r1eq fin[of ok1] by simp
  next
    case False
    then have ok1: "ok1" and p1: "p1 = 0" by simp_all
    from t1 r1eq p1 obtain evs1 where e1: "trace s1 = trace s0 @ evs1" "no_commits evs1"
      and m1: "memid1 = SIZE_MAX"
      unfolding tried_def claim_held_def by auto
    obtain r2 where r2: "second_sweep e ?blocks sz' commit (regions_count s0) p1 memid1 s1 = Some r2"
      using r region_path up rd r1 r1eq ok1 p1
      by (auto simp: mi_mem_alloc_aligned_def Let_def split: option.splits)
    obtain ok2 p2 memid2 s2 where r2eq: "r2 = (ok2, p2, memid2, s2)" by (cases r2) auto
    have t2': "tried ?blocks p1 memid1 s1 r2" using second_sweep_any[OF s1ok os B r2] .
    have t2: "tried ?blocks 0 SIZE_MAX s0 r2" using tried_trans[OF e1 t2'] p1 m1 by simp
    show ?thesis
    proof (cases "\<not> ok2 \<or> p2 \<noteq> 0")
      case True
      then have "p = (if ok2 then p2 else 0) \<and> memid = memid2 \<and> s' = s2"
        using r region_path up rd r1 r1eq ok1 p1 r2 r2eq
        by (auto simp: mi_mem_alloc_aligned_def Let_def)
      moreover have "\<not> ok2 \<Longrightarrow> p2 = 0" using t2 r2eq unfolding tried_def by auto
      ultimately have "(p, memid, s') = (p2, memid2, s2)" by auto
      then show ?thesis using t2 r2eq fin[of ok2] by simp
    next
      case False
      then have ok2: "ok2" and p2: "p2 = 0" by simp_all
      from t2 r2eq p2 obtain evs2 where e2: "trace s2 = trace s0 @ evs2" "no_commits evs2"
        unfolding tried_def claim_held_def by auto
      have "s' = snd (mi_os_alloc_aligned e sz' alignment commit s2)"
        using r region_path up rd r1 r1eq ok1 p1 r2 r2eq ok2 p2
        by (auto simp: mi_mem_alloc_aligned_def Let_def split: prod.splits)
      then have "trace s' = trace s @ (evs2 @
          [Os_alloc_aligned sz' alignment commit (os_alloc_result e (trace s2) sz' alignment commit)])"
        using e2(1) tr0 by (simp add: mi_os_alloc_aligned_def Let_def)
      moreover have "no_commits (evs2 @
          [Os_alloc_aligned sz' alignment commit (os_alloc_result e (trace s2) sz' alignment commit)])"
        using e2(2) by (intro no_commits_append) (simp_all add: no_commits_def)
      ultimately show ?thesis using up by blast
    qed
  qed
qed

text \<open>
  C8. With a well-formed OS and state, whatever the other threads do to the maps: when
  \<^verbatim>\<open>_mi_os_commit\<close> fails during an allocation from the regions (the trace of the call
  holds a commit with the result \<^verbatim>\<open>false\<close>), the allocation still returns the pointer
  whose commit failed, which is not \<^verbatim>\<open>NULL\<close>, with a region id \<open>j * MI_REGION_MAP_BITS + bitidx\<close>
  (which is not \<^verbatim>\<open>SIZE_MAX\<close>), and the bits of the claim are set in the map of region \<open>j\<close>.
\<close>

theorem commit_failure_not_propagated:
  assumes "state_ok s" and "os_ok e"
    and "sz \<noteq> 0" and "sz \<le> MI_REGION_MAX_ALLOC_SIZE" and "alignment \<le> MI_SEGMENT_ALIGN"
    and "mi_mem_alloc_aligned e sz alignment commit s = Some (p, memid, s')"
    and "Os_commit q csz False \<in> set (drop (length (trace s)) (trace s'))"
  shows "p = q \<and> p \<noteq> 0 \<and> memid \<noteq> SIZE_MAX \<and>
         (\<exists>sz' j bitidx.
            mi_align_up sz (os_page_size e) = Some sz' \<and>
            unat j < unat MI_REGION_MAX \<and> unat bitidx < 64 \<and>
            memid = j * MI_REGION_MAP_BITS + bitidx \<and>
            p = start (regions s' (unat j)) + bitidx * MI_SEGMENT_SIZE \<and>
            map_word (regions s' (unat j)) AND
              push_bit (unat bitidx) (mask (unat (mi_region_block_count sz'))) =
              push_bit (unat bitidx) (mask (unat (mi_region_block_count sz'))))"
proof -
  from alloc_aligned_any[OF assms(1-6)]
  obtain sz' evs where up: "mi_align_up sz (os_page_size e) = Some sz'"
    and tr: "trace s' = trace s @ evs"
    and c: "no_commits evs \<or>
            claim_held (mi_region_block_count sz') p memid s' \<and> commits_only evs p"
    by blast
  have mem: "Os_commit q csz False \<in> set evs" using assms(7) tr by simp
  then have "\<not> no_commits evs" unfolding no_commits_def by blast
  then have held: "claim_held (mi_region_block_count sz') p memid s'"
    and co: "commits_only evs p" using c by simp_all
  have pq: "p = q" using co mem unfolding commits_only_def by blast
  from held obtain j bitidx where j: "unat j < unat MI_REGION_MAX" and b: "unat bitidx < 64"
    and mid: "memid = j * MI_REGION_MAP_BITS + bitidx" and pn: "p \<noteq> 0"
    and p: "p = start (regions s' (unat j)) + bitidx * MI_SEGMENT_SIZE"
    and bits: "map_word (regions s' (unat j)) AND
              push_bit (unat bitidx) (mask (unat (mi_region_block_count sz'))) =
              push_bit (unat bitidx) (mask (unat (mi_region_block_count sz')))"
    unfolding claim_held_def by blast
  have "memid \<noteq> SIZE_MAX" using memid_decode(3)[OF j b] mid by simp
  then show ?thesis using pq pn up j b mid p bits by blast
qed

theorem commit_failure_not_propagated_witness:
  "state_ok ((demo_state 3 0x40400000)\<lparr>others_map := [4]\<rparr>) \<and> os_ok (demo_os 0 False) \<and>
   (4096::size_t) \<noteq> 0 \<and> (4096::size_t) \<le> MI_REGION_MAX_ALLOC_SIZE \<and>
   (0::size_t) \<le> MI_SEGMENT_ALIGN \<and>
   mi_mem_alloc_aligned (demo_os 0 False) 4096 0 True
       ((demo_state 3 0x40400000)\<lparr>others_map := [4]\<rparr>) =
     Some (0x40C00000, 2,
           (demo_state 4 0x40400000)
             \<lparr>trace := [Map_write 0 4, Os_commit 0x40C00000 0x200000 False]\<rparr>) \<and>
   Os_commit 0x40C00000 0x200000 False \<in>
     set (drop (length (trace ((demo_state 3 0x40400000)\<lparr>others_map := [4]\<rparr>)))
            [Map_write 0 4, Os_commit 0x40C00000 0x200000 False]) \<and>
   (0x40C00000::uintptr) \<noteq> 0 \<and> (2::size_t) \<noteq> SIZE_MAX \<and>
   map_word (regions (demo_state 4 0x40400000) 0) AND 4 = 4"
proof -
  have h1: "state_ok ((demo_state 3 0x40400000)\<lparr>others_map := [4]\<rparr>)"
    by (simp add: state_ok_others_map demo_state_ok demo_ptr_ok)
  have h2: "os_ok (demo_os 0 False)" by (simp add: demo_os_ok)
  have h3: "(4096::size_t) \<noteq> 0" by simp
  have h4: "(4096::size_t) \<le> MI_REGION_MAX_ALLOC_SIZE" by (simp add: const_defs)
  have h5: "(0::size_t) \<le> MI_SEGMENT_ALIGN" by simp
  have h6: "mi_mem_alloc_aligned (demo_os 0 False) 4096 0 True
       ((demo_state 3 0x40400000)\<lparr>others_map := [4]\<rparr>) =
     Some (0x40C00000, 2,
           (demo_state 4 0x40400000)
             \<lparr>trace := [Map_write 0 4, Os_commit 0x40C00000 0x200000 False]\<rparr>)"
    by (simp add: alloc_defs search_simps demo_defs const_simps atomic_simps Let_def fun_eq_iff)
  have h7: "Os_commit 0x40C00000 0x200000 False \<in>
     set (drop (length (trace ((demo_state 3 0x40400000)\<lparr>others_map := [4]\<rparr>)))
       (trace ((demo_state 4 0x40400000)
             \<lparr>trace := [Map_write 0 4, Os_commit 0x40C00000 0x200000 False]\<rparr>)))"
    by (simp add: demo_state_def)
  from commit_failure_not_propagated [OF h1 h2 h3 h4 h5 h6 h7]
  show ?thesis using h1 h2 h4 h6 h7
    by (simp add: demo_state_def const_defs)
qed

subsection \<open>Further properties\<close>

text \<open>
  The two validations of \<^verbatim>\<open>_mi_mem_free\<close> that are checked at run time: a free with a
  region id whose region index is not below \<^verbatim>\<open>MI_REGION_MAX\<close>, or whose pointer is not
  the address of the blocks of that id, changes nothing.
\<close>

theorem free_rejects_bad_index_or_pointer:
  assumes "memid \<noteq> SIZE_MAX" and "mi_mem_free e p sz memid s = Some s'"
    and "memid div MI_REGION_MAP_BITS \<ge> MI_REGION_MAX \<or>
         p \<noteq> start (regions s (unat (memid div MI_REGION_MAP_BITS))) +
              (memid mod MI_REGION_MAP_BITS) * MI_SEGMENT_SIZE"
  shows "s' = s"
  using assms by (auto simp: mi_mem_free_def Let_def split: if_splits option.splits)

theorem free_rejects_bad_index_or_pointer_witness:
  "(0x10000::size_t) \<noteq> SIZE_MAX \<and>
   mi_mem_free (demo_os 0 True) 0x40400000 4096 0x10000 (demo_state 1 0x40400000) =
     Some (demo_state 1 0x40400000) \<and>
   (0x10000::size_t) div MI_REGION_MAP_BITS \<ge> MI_REGION_MAX \<and>
   (1::size_t) \<noteq> SIZE_MAX \<and>
   mi_mem_free (demo_os 0 True) 0x40400000 4096 1 (demo_state 3 0x40400000) =
     Some (demo_state 3 0x40400000)"
proof -
  have h1: "(0x10000::size_t) \<noteq> SIZE_MAX" by (simp add: const_defs)
  have h2: "mi_mem_free (demo_os 0 True) 0x40400000 4096 0x10000 (demo_state 1 0x40400000) =
     Some (demo_state 1 0x40400000)"
    by (simp add: mi_mem_free_def demo_defs const_simps Let_def)
  have h3: "(0x10000::size_t) div MI_REGION_MAP_BITS \<ge> MI_REGION_MAX" by (simp add: const_defs)
  have h4: "(1::size_t) \<noteq> SIZE_MAX" by (simp add: const_defs)
  have h5: "mi_mem_free (demo_os 0 True) 0x40400000 4096 1 (demo_state 3 0x40400000) =
     Some (demo_state 3 0x40400000)"
    by (simp add: mi_mem_free_def demo_defs const_simps Let_def)
  from free_rejects_bad_index_or_pointer [OF h1 h2] h1 h2 h3 h4 h5 show ?thesis by simp
qed

text \<open>
  In a quiet environment, with a well-formed OS and state, an allocation of a non-zero
  size returns: no shift or division in it is undefined, and every loop ends.
\<close>

theorem alloc_aligned_returns:
  assumes "state_ok s" and "os_ok e" and "others_map s = []" and "sz \<noteq> 0"
  shows "\<exists>p memid s'. mi_mem_alloc_aligned e sz alignment commit s = Some (p, memid, s')"
proof (cases "sz > MI_REGION_MAX_ALLOC_SIZE \<or> alignment > MI_SEGMENT_ALIGN")
  case True
  have "os_large_page_size e \<noteq> 0" using assms(2) by (simp add: os_ok_def)
  then obtain csz where "mi_good_commit_size e sz = Some csz"
    using good_commit_size_defined by blast
  then show ?thesis using True
    by (simp add: mi_mem_alloc_aligned_def Let_def split: prod.splits)
next
  case False
  then have "sz \<le> MI_REGION_MAX_ALLOC_SIZE" "alignment \<le> MI_SEGMENT_ALIGN"
    by (simp_all add: not_less)
  from alloc_aligned_spec[OF assms(1,2,3,4) this, of commit] show ?thesis by blast
qed

theorem alloc_aligned_returns_witness:
  "state_ok (demo_state 0 0) \<and> os_ok (demo_os 0x40400000 True) \<and>
   others_map (demo_state 0 0) = [] \<and> (5000000::size_t) \<noteq> 0 \<and>
   (\<exists>p memid s'. mi_mem_alloc_aligned (demo_os 0x40400000 True) 5000000 0 True (demo_state 0 0) =
      Some (p, memid, s'))"
proof -
  have h1: "state_ok (demo_state 0 0)" by (simp add: demo_state_ok)
  have h2: "os_ok (demo_os 0x40400000 True)" by (simp add: demo_os_ok demo_ptr_ok)
  have h3: "others_map (demo_state 0 0) = []" by (simp add: demo_state_def)
  have h4: "(5000000::size_t) \<noteq> 0" by simp
  from alloc_aligned_returns [OF h1 h2 h3 h4] h1 h2 h3 show ?thesis by simp
qed

end
